theory Spec2Isabelle
  imports Main
begin

section \<open>Data model of the control-flow graph\<close>

text \<open>
  The development embeds \<^verbatim>\<open>cfg/builder/builder_finalize.cc\<close>. The C++ code works on a
  graph of heap-allocated basic blocks that point at each other. The embedding keeps the
  pointers: a block reference is an address, the memory is a function from addresses to
  block records, and every mutation of the source is an update of that function.
\<close>

type_synonym NameRef = nat
type_synonym bbref = nat

text \<open>
  \<^verbatim>\<open>core::LocalVariable\<close> is declared outside the embedded file. The code only reads
  \<^verbatim>\<open>name\<close> (and its \<^verbatim>\<open>_id\<close>), compares variables for equality and asks the context the
  two predicates below; the second component stands for whatever else tells two variables
  of one name apart.
\<close>

datatype LocalVariable = LocalVariable (name: NameRef) (unique: nat)

record Context =
  isSyntheticTemporary :: "LocalVariable \<Rightarrow> bool"
  isAliasForGlobal :: "LocalVariable \<Rightarrow> bool"

text \<open>Modelled from the spec: \<^verbatim>\<open>LocalVariable::exists()\<close> is not part of the embedded file;
  the condition of an exit may be the ``does-not-exist'' marker, the variable of name 0.\<close>

definition exists_var :: "LocalVariable \<Rightarrow> bool" where
  "exists_var v = (name v \<noteq> 0)"

datatype Instruction =
    Ident LocalVariable
  | Send LocalVariable NameRef "LocalVariable list"
  | Return LocalVariable
  | New
  | ArraySplat LocalVariable
  | HashSplat LocalVariable
  | BoolLit bool
  | StringLit NameRef
  | SymbolLit NameRef
  | IntLit int
  | FloatLit
  | Self
  | LoadArg nat

text \<open>A binding owns its instruction through a \<^verbatim>\<open>unique_ptr\<close>; \<open>None\<close> is the null pointer
  a moved-from binding is left with.\<close>

record Binding =
  bind :: LocalVariable
  bvalue :: "Instruction option"

record BlockExit =
  cond :: LocalVariable
  thenb :: bbref
  elseb :: bbref

text \<open>Modelled from the spec: the flag constants are declared in a header outside the
  embedded file; \<^verbatim>\<open>flags\<close> is a bit-set with one bit per constant, here the set of the
  flags that are on.\<close>

datatype Flag = LOOP_HEADER | FORWARD_TOPO_SORT_VISITED | BACKWARD_TOPO_SORT_VISITED

record BasicBlock =
  bb_id :: nat
  flags :: "Flag set"
  exprs :: "Binding list"
  bexit :: BlockExit
  backEdges :: "bbref list"
  outerLoops :: int
  args :: "LocalVariable list"

text \<open>
  \<open>basicBlocks\<close> is the owning vector, in its order; \<open>entry\<close> and \<open>deadBlock\<close> are the two
  distinguished blocks (their accessors are declared outside the embedded file).
  A block erased from \<open>basicBlocks\<close> is freed by the source; the embedding leaves its
  record in \<open>heap\<close>, where nothing that respects ownership looks at it again.
\<close>

record CFG =
  heap :: "bbref \<Rightarrow> BasicBlock"
  basicBlocks :: "bbref list"
  entry :: bbref
  deadBlock :: bbref
  forwardsTopoSort :: "bbref list"
  backwardsTopoSort :: "bbref list"
  minLoops :: "LocalVariable \<rightharpoonup> int"
  maxLoopWrite :: "LocalVariable \<rightharpoonup> int"

datatype error = EnforceFailed | OutOfBounds

section \<open>sanityCheck\<close>

text \<open>The two loops of \<^verbatim>\<open>sanityCheck\<close>: \<open>True\<close> when every \<^verbatim>\<open>ENFORCE\<close> holds.\<close>

definition parents_aware :: "(bbref \<Rightarrow> BasicBlock) \<Rightarrow> bbref \<Rightarrow> bool" where
  "parents_aware h bb =
     list_all (\<lambda>parent. thenb (bexit (h parent)) = bb \<or> elseb (bexit (h parent)) = bb)
       (backEdges (h bb))"

definition backedges_set :: "(bbref \<Rightarrow> BasicBlock) \<Rightarrow> bbref \<Rightarrow> bool" where
  "backedges_set h bb =
     (bb \<in> set (backEdges (h (thenb (bexit (h bb))))) \<and>
      bb \<in> set (backEdges (h (elseb (bexit (h bb))))))"

definition sanityCheck :: "CFG \<Rightarrow> bool" where
  "sanityCheck cfg =
     list_all (\<lambda>bb. parents_aware (heap cfg) bb \<and>
                     (bb = deadBlock cfg \<or> backedges_set (heap cfg) bb))
       (basicBlocks cfg)"

section \<open>simplify\<close>

datatype rule = R1 | R2 | R3a | R3b | R4 | R5

definition upd_backEdges ::
  "bbref \<Rightarrow> (bbref list \<Rightarrow> bbref list) \<Rightarrow> (bbref \<Rightarrow> BasicBlock) \<Rightarrow> (bbref \<Rightarrow> BasicBlock)" where
  "upd_backEdges p f h = h(p := (h p)\<lparr>backEdges := f (backEdges (h p))\<rparr>)"

definition push_back :: "bbref \<Rightarrow> bbref list \<Rightarrow> bbref list" where
  "push_back bb xs = xs @ [bb]"

text \<open>Lines 23--39: the block at position \<open>it\<close> is unreachable and is erased.\<close>

definition remove_unreachable :: "CFG \<Rightarrow> nat \<Rightarrow> CFG" where
  "remove_unreachable cfg it =
     (let bb = basicBlocks cfg ! it;
          h = heap cfg;
          t = thenb (bexit (h bb));
          e = elseb (bexit (h bb));
          h1 = upd_backEdges t (removeAll bb) h;
          h2 = (if e \<noteq> t then upd_backEdges e (removeAll bb) h1 else h1)
      in cfg\<lparr>heap := h2,
             basicBlocks := take it (basicBlocks cfg) @ drop (Suc it) (basicBlocks cfg),
             forwardsTopoSort := removeAll bb (forwardsTopoSort cfg),
             backwardsTopoSort := removeAll bb (backwardsTopoSort cfg)\<rparr>)"

text \<open>Lines 41--43: sort the back-edges by block id, drop adjacent duplicates.\<close>

definition canonicalize :: "CFG \<Rightarrow> bbref \<Rightarrow> CFG" where
  "canonicalize cfg bb =
     cfg\<lparr>heap := upd_backEdges bb
            (\<lambda>xs. remdups_adj (sort_key (\<lambda>p. bb_id (heap cfg p)) xs)) (heap cfg)\<rparr>"

definition moved_from :: "Binding \<Rightarrow> Binding" where
  "moved_from b = b\<lparr>bvalue := None\<rparr>"

definition reparent :: "bbref \<Rightarrow> (bbref \<Rightarrow> BasicBlock) \<Rightarrow> (bbref \<Rightarrow> BasicBlock)" where
  "reparent bb h =
     (let h1 = upd_backEdges (thenb (bexit (h bb))) (push_back bb) h
      in if thenb (bexit (h1 bb)) \<noteq> elseb (bexit (h1 bb))
         then upd_backEdges (elseb (bexit (h1 bb))) (push_back bb) h1 else h1)"

text \<open>Lines 48--55: \<open>s\<close> has \<open>bb\<close> as its only predecessor; its bindings are moved onto \<open>bb\<close>.\<close>

definition squash :: "CFG \<Rightarrow> bbref \<Rightarrow> bbref \<Rightarrow> CFG" where
  "squash cfg bb s =
     (let h = heap cfg;
          h1 = h(bb := (h bb)\<lparr>exprs := exprs (h bb) @ exprs (h s)\<rparr>);
          h2 = h1(s := (h1 s)\<lparr>exprs := map moved_from (exprs (h1 s))\<rparr>);
          h3 = upd_backEdges s (\<lambda>xs. []) h2;
          h4 = h3(bb := (h3 bb)\<lparr>bexit := bexit (h3 s)\<rparr>)
      in cfg\<lparr>heap := reparent bb h4\<rparr>)"

text \<open>Lines 61--67: \<open>s\<close> is empty and no block header; \<open>bb\<close> takes over its exit.\<close>

definition skip_empty :: "CFG \<Rightarrow> bbref \<Rightarrow> bbref \<Rightarrow> CFG" where
  "skip_empty cfg bb s =
     (let h = heap cfg;
          h1 = h(bb := (h bb)\<lparr>bexit := bexit (h s)\<rparr>);
          h2 = upd_backEdges s (removeAll bb) h1
      in cfg\<lparr>heap := reparent bb h2\<rparr>)"

text \<open>Lines 76--79.\<close>

definition shortcut_then :: "CFG \<Rightarrow> bbref \<Rightarrow> bbref \<Rightarrow> CFG" where
  "shortcut_then cfg bb t =
     (let h = heap cfg;
          h1 = h(bb := (h bb)\<lparr>bexit := (bexit (h bb))\<lparr>thenb := thenb (bexit (h t))\<rparr>\<rparr>);
          h2 = upd_backEdges (thenb (bexit (h1 t))) (push_back bb) h1;
          h3 = upd_backEdges t (removeAll bb) h2
      in cfg\<lparr>heap := h3\<rparr>)"

text \<open>Lines 88--91.\<close>

definition shortcut_else :: "CFG \<Rightarrow> bbref \<Rightarrow> bbref \<Rightarrow> CFG" where
  "shortcut_else cfg bb e =
     (let h = heap cfg;
          h1 = h(bb := (h bb)\<lparr>bexit := (bexit (h bb))\<lparr>elseb := elseb (bexit (h e))\<rparr>\<rparr>);
          h2 = upd_backEdges (elseb (bexit (h1 bb))) (push_back bb) h1;
          h3 = upd_backEdges e (removeAll bb) h2
      in cfg\<lparr>heap := h3\<rparr>)"

text \<open>A rule has mutated the graph; in a debug build \<^verbatim>\<open>sanityCheck\<close> runs and a failed
  \<^verbatim>\<open>ENFORCE\<close> aborts.\<close>

definition checked :: "bool \<Rightarrow> rule list \<Rightarrow> CFG \<Rightarrow> error + rule list \<times> CFG" where
  "checked debug_mode fired cfg =
     (if debug_mode \<and> \<not> sanityCheck cfg then Inl EnforceFailed else Inr (fired, cfg))"

text \<open>
  One run of the body of the \<^verbatim>\<open>for\<close> loop (lines 19--96) with the iterator at position
  \<open>it\<close>. The result lists the rules that fired, in order. \<open>blockCall\<close> is the name
  \<^verbatim>\<open>core::Names::blockCall()\<close>, a constant declared outside the embedded file.
\<close>

definition simplify_block ::
  "bool \<Rightarrow> NameRef \<Rightarrow> CFG \<Rightarrow> nat \<Rightarrow> error + rule list \<times> CFG" where
  "simplify_block debug_mode blockCall cfg it =
     (let bb = basicBlocks cfg ! it;
          thenb0 = thenb (bexit (heap cfg bb));
          elseb0 = elseb (bexit (heap cfg bb));
          guarded = (bb \<noteq> deadBlock cfg \<and> bb \<noteq> entry cfg)
      in if guarded \<and> backEdges (heap cfg bb) = [] then
           checked debug_mode [R1] (remove_unreachable cfg it)
         else
           let cfg1 = (if guarded then canonicalize cfg bb else cfg);
               pre = (if guarded then [R2] else []);
               h = heap cfg1
           in if thenb0 = elseb0 \<and> thenb0 \<noteq> deadBlock cfg1 \<and> thenb0 \<noteq> bb \<and>
                 length (backEdges (h thenb0)) = 1 then
                checked debug_mode (pre @ [R3a]) (squash cfg1 bb thenb0)
              else if thenb0 = elseb0 \<and> thenb0 \<noteq> deadBlock cfg1 \<and> thenb0 \<noteq> bb \<and>
                 name (cond (bexit (h thenb0))) \<noteq> blockCall \<and> exprs (h thenb0) = [] then
                checked debug_mode (pre @ [R3b]) (skip_empty cfg1 bb thenb0)
              else if thenb0 \<noteq> deadBlock cfg1 \<and> exprs (h thenb0) = [] \<and>
                 thenb (bexit (h thenb0)) = elseb (bexit (h thenb0)) \<and>
                 thenb (bexit (h bb)) \<noteq> thenb (bexit (h thenb0)) then
                checked debug_mode (pre @ [R4]) (shortcut_then cfg1 bb thenb0)
              else if elseb0 \<noteq> deadBlock cfg1 \<and> exprs (h elseb0) = [] \<and>
                 thenb (bexit (h elseb0)) = elseb (bexit (h elseb0)) \<and>
                 elseb (bexit (h bb)) \<noteq> elseb (bexit (h elseb0)) then
                (if debug_mode \<and> \<not> sanityCheck cfg1 then Inl EnforceFailed
                 else checked debug_mode (pre @ [R5]) (shortcut_else cfg1 bb elseb0))
              else Inr (pre, cfg1))"

text \<open>The iteration ends in \<^verbatim>\<open>continue\<close> (with \<^verbatim>\<open>changed = true\<close>) exactly when one of
  R1, R3a, R3b, R4, R5 fired; the canonicalization R2 alone moves on to the next block.\<close>

definition continued :: "rule list \<Rightarrow> bool" where
  "continued fired = (fired \<noteq> [] \<and> last fired \<noteq> R2)"

text \<open>
  The \<^verbatim>\<open>for\<close> loop from position \<open>it\<close> on, and the \<^verbatim>\<open>while (changed)\<close> loop around it.
  Neither loop has an evident bound, so both take fuel: \<open>None\<close> says the fuel ran out.
\<close>

fun simplify_pass ::
  "nat \<Rightarrow> bool \<Rightarrow> NameRef \<Rightarrow> CFG \<Rightarrow> nat \<Rightarrow> bool \<Rightarrow> (error + CFG \<times> bool) option" where
  "simplify_pass 0 debug_mode blockCall cfg it changed = None"
| "simplify_pass (Suc n) debug_mode blockCall cfg it changed =
     (if length (basicBlocks cfg) \<le> it then Some (Inr (cfg, changed))
      else case simplify_block debug_mode blockCall cfg it of
             Inl e \<Rightarrow> Some (Inl e)
           | Inr (fired, cfg') \<Rightarrow>
               if continued fired then simplify_pass n debug_mode blockCall cfg' it True
               else simplify_pass n debug_mode blockCall cfg' (Suc it) changed)"

fun simplify_loop :: "nat \<Rightarrow> bool \<Rightarrow> NameRef \<Rightarrow> CFG \<Rightarrow> (error + CFG) option" where
  "simplify_loop 0 debug_mode blockCall cfg = None"
| "simplify_loop (Suc n) debug_mode blockCall cfg =
     (case simplify_pass n debug_mode blockCall cfg 0 False of
        None \<Rightarrow> None
      | Some (Inl e) \<Rightarrow> Some (Inl e)
      | Some (Inr (cfg', changed)) \<Rightarrow>
          if changed then simplify_loop n debug_mode blockCall cfg' else Some (Inr cfg'))"

definition simplify :: "nat \<Rightarrow> bool \<Rightarrow> NameRef \<Rightarrow> CFG \<Rightarrow> (error + CFG) option" where
  "simplify n debug_mode blockCall cfg =
     (if debug_mode \<and> \<not> sanityCheck cfg then Some (Inl EnforceFailed)
      else simplify_loop n debug_mode blockCall cfg)"

section \<open>dealias\<close>

type_synonym aliases = "LocalVariable \<rightharpoonup> LocalVariable"

definition maybeDealias :: "Context \<Rightarrow> LocalVariable \<Rightarrow> aliases \<Rightarrow> LocalVariable" where
  "maybeDealias ctx what als =
     (if isSyntheticTemporary ctx what
      then (case als what of Some v \<Rightarrow> v | None \<Rightarrow> what)
      else what)"

text \<open>Indexing a vector: the source reads \<^verbatim>\<open>v[i]\<close> unchecked, which is undefined outside
  the vector; the embedding makes it the error \<open>OutOfBounds\<close>.\<close>

definition at :: "'a list \<Rightarrow> nat \<Rightarrow> error + 'a" where
  "at xs i = (if i < length xs then Inr (xs ! i) else Inl OutOfBounds)"

text \<open>Lines 153--165: \<open>current\<close> keeps the entries that \<open>other\<close> has with the same value.\<close>

definition meet :: "aliases \<Rightarrow> aliases \<Rightarrow> aliases" where
  "meet current other =
     (\<lambda>k. case current k of
             None \<Rightarrow> None
           | Some v \<Rightarrow> if other k = Some v then Some v else None)"

text \<open>Lines 173--179: erase the entries whose value is the variable being bound.\<close>

definition invalidate :: "LocalVariable \<Rightarrow> aliases \<Rightarrow> aliases" where
  "invalidate b current =
     (\<lambda>k. case current k of
             None \<Rightarrow> None
           | Some v \<Rightarrow> if v = b then None else Some v)"

text \<open>Lines 169--171, 181--190 and 193--195 on the instruction of one binding.
  A null instruction is no variant, so every cast on it fails.\<close>

definition dealias_ident :: "Context \<Rightarrow> aliases \<Rightarrow> Instruction option \<Rightarrow> Instruction option" where
  "dealias_ident ctx current v =
     (case v of Some (Ident w) \<Rightarrow> Some (Ident (maybeDealias ctx w current)) | _ \<Rightarrow> v)"

definition dealias_operands :: "Context \<Rightarrow> aliases \<Rightarrow> Instruction option \<Rightarrow> Instruction option" where
  "dealias_operands ctx current v =
     (case v of
        Some (Ident w) \<Rightarrow> Some (Ident (maybeDealias ctx w current))
      | Some (Send r f as) \<Rightarrow>
          Some (Send (maybeDealias ctx r current) f (map (\<lambda>a. maybeDealias ctx a current) as))
      | Some (Return w) \<Rightarrow> Some (Return (maybeDealias ctx w current))
      | _ \<Rightarrow> v)"

definition record_alias :: "LocalVariable \<Rightarrow> Instruction option \<Rightarrow> aliases \<Rightarrow> aliases" where
  "record_alias b v current =
     (case v of Some (Ident w) \<Rightarrow> current(b \<mapsto> w) | _ \<Rightarrow> current)"

text \<open>The body of the loop over the bindings of a block (lines 169--195).\<close>

definition dealias_binding :: "Context \<Rightarrow> Binding \<Rightarrow> aliases \<Rightarrow> Binding \<times> aliases" where
  "dealias_binding ctx b current =
     (let v1 = dealias_ident ctx current (bvalue b);
          current1 = invalidate (bind b) current;
          v2 = dealias_operands ctx current1 v1
      in (b\<lparr>bvalue := v2\<rparr>, record_alias (bind b) v2 current1))"

fun dealias_exprs :: "Context \<Rightarrow> Binding list \<Rightarrow> aliases \<Rightarrow> Binding list \<times> aliases" where
  "dealias_exprs ctx [] current = ([], current)"
| "dealias_exprs ctx (b # bs) current =
     (case dealias_binding ctx b current of
        (b', current1) \<Rightarrow>
          (case dealias_exprs ctx bs current1 of
             (bs', current2) \<Rightarrow> (b' # bs', current2)))"

text \<open>Lines 151--166. \<open>current\<close> is a reference to slot \<open>c\<close> of \<open>outAliases\<close>, so each step
  writes the slot; \<open>other\<close> is a copy of the parent's slot, read when its turn comes.\<close>

fun dealias_parents ::
  "(bbref \<Rightarrow> BasicBlock) \<Rightarrow> nat \<Rightarrow> bbref list \<Rightarrow> aliases list \<Rightarrow> error + aliases list" where
  "dealias_parents h c [] outAliases = Inr outAliases"
| "dealias_parents h c (parent # ps) outAliases =
     (case at outAliases (bb_id (h parent)) of
        Inl e \<Rightarrow> Inl e
      | Inr other \<Rightarrow> dealias_parents h c ps (outAliases[c := meet (outAliases ! c) other]))"

text \<open>Lines 146--149: bind \<open>current\<close> to the block's slot and seed it from the first parent.\<close>

definition dealias_seed ::
  "(bbref \<Rightarrow> BasicBlock) \<Rightarrow> bbref \<Rightarrow> aliases list \<Rightarrow> error + aliases list" where
  "dealias_seed h bb outAliases =
     (if \<not> bb_id (h bb) < length outAliases then Inl OutOfBounds
      else if backEdges (h bb) \<noteq> [] then
        (case at outAliases (bb_id (h (hd (backEdges (h bb))))) of
           Inl e \<Rightarrow> Inl e
         | Inr first \<Rightarrow> Inr (outAliases[bb_id (h bb) := first]))
      else Inr outAliases)"

text \<open>The body of the loop over \<^verbatim>\<open>backwardsTopoSort\<close> for a block other than the dead one
  (lines 146--199).\<close>

definition dealias_block ::
  "Context \<Rightarrow> (bbref \<Rightarrow> BasicBlock) \<Rightarrow> bbref \<Rightarrow> aliases list \<Rightarrow>
     error + (bbref \<Rightarrow> BasicBlock) \<times> aliases list" where
  "dealias_block ctx h bb outAliases =
     (case dealias_seed h bb outAliases of
        Inl e \<Rightarrow> Inl e
      | Inr oa1 \<Rightarrow>
          (case dealias_parents h (bb_id (h bb)) (backEdges (h bb)) oa1 of
             Inl e \<Rightarrow> Inl e
           | Inr oa2 \<Rightarrow>
               (case dealias_exprs ctx (exprs (h bb)) (oa2 ! bb_id (h bb)) of
                  (es, current) \<Rightarrow>
                    Inr (h(bb := (h bb)
                           \<lparr>exprs := es,
                            bexit := (if exists_var (cond (bexit (h bb)))
                                      then (bexit (h bb))
                                             \<lparr>cond := maybeDealias ctx (cond (bexit (h bb))) current\<rparr>
                                      else bexit (h bb))\<rparr>),
                         oa2[bb_id (h bb) := current]))))"

fun dealias_blocks ::
  "Context \<Rightarrow> bbref \<Rightarrow> bbref list \<Rightarrow> (bbref \<Rightarrow> BasicBlock) \<Rightarrow> aliases list \<Rightarrow>
     error + (bbref \<Rightarrow> BasicBlock) \<times> aliases list" where
  "dealias_blocks ctx dead [] h outAliases = Inr (h, outAliases)"
| "dealias_blocks ctx dead (bb # bbs) h outAliases =
     (if bb = dead then dealias_blocks ctx dead bbs h outAliases
      else case dealias_block ctx h bb outAliases of
             Inl e \<Rightarrow> Inl e
           | Inr (h', oa') \<Rightarrow> dealias_blocks ctx dead bbs h' oa')"

text \<open>Line 141 sizes \<^verbatim>\<open>outAliases\<close> to the number of blocks the graph owns.\<close>

definition dealias :: "Context \<Rightarrow> CFG \<Rightarrow> error + CFG" where
  "dealias ctx cfg =
     (case dealias_blocks ctx (deadBlock cfg) (backwardsTopoSort cfg) (heap cfg)
             (replicate (length (basicBlocks cfg)) Map.empty) of
        Inl e \<Rightarrow> Inl e
      | Inr (h, outAliases) \<Rightarrow> Inr (cfg\<lparr>heap := h\<rparr>))"

section \<open>removeDeadAssigns and computeMinMaxLoops\<close>

text \<open>
  \<^verbatim>\<open>CFG::ReadsAndWrites\<close>: two hash maps from a variable to a hash set of blocks. A hash map
  is a list of entries in its iteration order (the keys differ), a hash set a list of its
  elements in its iteration order.
\<close>

record ReadsAndWrites =
  reads :: "(LocalVariable \<times> bbref list) list"
  writes :: "(LocalVariable \<times> bbref list) list"

text \<open>The variants listed at lines 227--231.\<close>

fun removable :: "Instruction option \<Rightarrow> bool" where
  "removable (Some (Ident w)) = True"
| "removable (Some (ArraySplat w)) = True"
| "removable (Some (HashSplat w)) = True"
| "removable (Some (BoolLit b)) = True"
| "removable (Some (StringLit s)) = True"
| "removable (Some (SymbolLit s)) = True"
| "removable (Some (IntLit i)) = True"
| "removable (Some FloatLit) = True"
| "removable (Some Self) = True"
| "removable (Some (LoadArg i)) = True"
| "removable v = False"

text \<open>The loop over the bindings of one block (lines 216--239).\<close>

fun removeDeadAssigns_exprs :: "Context \<Rightarrow> ReadsAndWrites \<Rightarrow> Binding list \<Rightarrow> Binding list" where
  "removeDeadAssigns_exprs ctx RnW [] = []"
| "removeDeadAssigns_exprs ctx RnW (b # bs) =
     (if isAliasForGlobal ctx (bind b) then b # removeDeadAssigns_exprs ctx RnW bs
      else case map_of (reads RnW) (bind b) of
             None \<Rightarrow>
               if removable (bvalue b) then removeDeadAssigns_exprs ctx RnW bs
               else b # removeDeadAssigns_exprs ctx RnW bs
           | Some fnd \<Rightarrow> b # removeDeadAssigns_exprs ctx RnW bs)"

fun removeDeadAssigns_blocks ::
  "Context \<Rightarrow> ReadsAndWrites \<Rightarrow> bbref list \<Rightarrow> (bbref \<Rightarrow> BasicBlock) \<Rightarrow> (bbref \<Rightarrow> BasicBlock)" where
  "removeDeadAssigns_blocks ctx RnW [] h = h"
| "removeDeadAssigns_blocks ctx RnW (bb # bbs) h =
     removeDeadAssigns_blocks ctx RnW bbs
       (h(bb := (h bb)\<lparr>exprs := removeDeadAssigns_exprs ctx RnW (exprs (h bb))\<rparr>))"

definition removeDeadAssigns :: "Context \<Rightarrow> ReadsAndWrites \<Rightarrow> CFG \<Rightarrow> CFG" where
  "removeDeadAssigns ctx RnW cfg =
     cfg\<lparr>heap := removeDeadAssigns_blocks ctx RnW (basicBlocks cfg) (heap cfg)\<rparr>"

definition INT_MAX :: int where
  "INT_MAX = 2147483647"

text \<open>Lines 249--253 and 263--270: the loops over the blocks of one variable.\<close>

fun lower_min :: "(bbref \<Rightarrow> BasicBlock) \<Rightarrow> bbref list \<Rightarrow> int \<Rightarrow> int" where
  "lower_min h [] mn = mn"
| "lower_min h (bb # bbs) mn =
     lower_min h bbs (if mn > outerLoops (h bb) then outerLoops (h bb) else mn)"

fun raise_max :: "(bbref \<Rightarrow> BasicBlock) \<Rightarrow> bbref list \<Rightarrow> int \<Rightarrow> int" where
  "raise_max h [] mx = mx"
| "raise_max h (bb # bbs) mx =
     raise_max h bbs (if mx < outerLoops (h bb) then outerLoops (h bb) else mx)"

text \<open>\<^verbatim>\<open>insert({what, d})\<close> leaves an entry that is there alone; the reference it returns
  reads the entry's value.\<close>

definition inserted :: "(LocalVariable \<rightharpoonup> int) \<Rightarrow> LocalVariable \<Rightarrow> int \<Rightarrow> int" where
  "inserted m what d = (case m what of None \<Rightarrow> d | Some v \<Rightarrow> v)"

fun minmax_reads ::
  "(bbref \<Rightarrow> BasicBlock) \<Rightarrow> (LocalVariable \<times> bbref list) list \<Rightarrow>
     (LocalVariable \<rightharpoonup> int) \<Rightarrow> (LocalVariable \<rightharpoonup> int)" where
  "minmax_reads h [] mn = mn"
| "minmax_reads h ((what, wh) # rest) mn =
     minmax_reads h rest (mn(what \<mapsto> lower_min h wh (inserted mn what INT_MAX)))"

fun minmax_writes ::
  "(bbref \<Rightarrow> BasicBlock) \<Rightarrow> (LocalVariable \<times> bbref list) list \<Rightarrow>
     (LocalVariable \<rightharpoonup> int) \<times> (LocalVariable \<rightharpoonup> int) \<Rightarrow>
     (LocalVariable \<rightharpoonup> int) \<times> (LocalVariable \<rightharpoonup> int)" where
  "minmax_writes h [] (mn, mx) = (mn, mx)"
| "minmax_writes h ((what, wh) # rest) (mn, mx) =
     minmax_writes h rest
       (mn(what \<mapsto> lower_min h wh (inserted mn what INT_MAX)),
        mx(what \<mapsto> raise_max h wh (inserted mx what 0)))"

definition computeMinMaxLoops :: "Context \<Rightarrow> ReadsAndWrites \<Rightarrow> CFG \<Rightarrow> CFG" where
  "computeMinMaxLoops ctx RnW cfg =
     (case minmax_writes (heap cfg) (writes RnW)
             (minmax_reads (heap cfg) (reads RnW) (minLoops cfg), maxLoopWrite cfg) of
        (mn, mx) \<Rightarrow> cfg\<lparr>minLoops := mn, maxLoopWrite := mx\<rparr>)"

section \<open>fillInBlockArguments\<close>

text \<open>A hash set of variables is the list of its elements in iteration order; inserting
  an element that is there changes nothing.\<close>

type_synonym varset = "LocalVariable list"

definition insert_range :: "varset \<Rightarrow> varset \<Rightarrow> varset" where
  "insert_range src dst = fold List.insert src dst"

text \<open>\<^verbatim>\<open>m[x]\<close> on a hash map: the entry of \<open>x\<close>, made with an empty set when there is none.\<close>

definition with_key ::
  "LocalVariable \<Rightarrow> (LocalVariable \<times> bbref list) list \<Rightarrow> (LocalVariable \<times> bbref list) list" where
  "with_key x m = (case map_of m x of None \<Rightarrow> m @ [(x, [])] | Some s \<Rightarrow> m)"

definition entry_of :: "(LocalVariable \<times> bbref list) list \<Rightarrow> LocalVariable \<Rightarrow> bbref list" where
  "entry_of m x = (case map_of m x of None \<Rightarrow> [] | Some s \<Rightarrow> s)"

definition set_entry ::
  "LocalVariable \<Rightarrow> bbref list \<Rightarrow> (LocalVariable \<times> bbref list) list \<Rightarrow>
     (LocalVariable \<times> bbref list) list" where
  "set_entry x s m = map (\<lambda>(k, v). if k = x then (k, s) else (k, v)) m"

text \<open>Lines 290--299: the loop over \<^verbatim>\<open>RnW.reads\<close>; it returns the entries of \<open>reads\<close> it
  went through and the new \<open>writes\<close>.\<close>

fun prune_reads ::
  "(LocalVariable \<times> bbref list) list \<Rightarrow> (LocalVariable \<times> bbref list) list \<Rightarrow>
     (LocalVariable \<times> bbref list) list \<times> (LocalVariable \<times> bbref list) list" where
  "prune_reads [] ws = ([], ws)"
| "prune_reads ((x, rds) # rest) ws =
     (let ws1 = with_key x ws; wts = entry_of ws1 x
      in if length rds = 1 \<and> length wts = 1 \<and> hd rds = hd wts then
           (case prune_reads rest (set_entry x [] ws1) of
              (rest', ws') \<Rightarrow> ((x, []) # rest', ws'))
         else if wts = [] then
           (case prune_reads rest ws1 of (rest', ws') \<Rightarrow> ((x, []) # rest', ws'))
         else
           (case prune_reads rest ws1 of (rest', ws') \<Rightarrow> ((x, rds) # rest', ws')))"

text \<open>Lines 307--312: \<^verbatim>\<open>table[bb->id].insert(x)\<close> for every block of a set.\<close>

fun insert_at ::
  "(bbref \<Rightarrow> BasicBlock) \<Rightarrow> LocalVariable \<Rightarrow> bbref list \<Rightarrow> varset list \<Rightarrow> error + varset list" where
  "insert_at h x [] tbl = Inr tbl"
| "insert_at h x (bb # bbs) tbl =
     (if bb_id (h bb) < length tbl
      then insert_at h x bbs (tbl[bb_id (h bb) := List.insert x (tbl ! bb_id (h bb))])
      else Inl OutOfBounds)"

text \<open>Lines 301--313: the loop over \<^verbatim>\<open>RnW.writes\<close>; it returns the entries of \<open>writes\<close> it
  went through, the new \<open>reads\<close> and the two tables.\<close>

fun prune_writes ::
  "(bbref \<Rightarrow> BasicBlock) \<Rightarrow> (LocalVariable \<times> bbref list) list \<Rightarrow>
     (LocalVariable \<times> bbref list) list \<Rightarrow> varset list \<Rightarrow> varset list \<Rightarrow>
     error + (LocalVariable \<times> bbref list) list \<times> (LocalVariable \<times> bbref list) list \<times>
             varset list \<times> varset list" where
  "prune_writes h [] rs reads_by_block writes_by_block =
     Inr ([], rs, reads_by_block, writes_by_block)"
| "prune_writes h ((x, wts) # rest) rs reads_by_block writes_by_block =
     (let rs1 = with_key x rs;
          rds = entry_of rs1 x;
          wts1 = (if rds = [] then [] else wts)
      in case insert_at h x rds reads_by_block of
           Inl e \<Rightarrow> Inl e
         | Inr rbb \<Rightarrow>
             (case insert_at h x wts1 writes_by_block of
                Inl e \<Rightarrow> Inl e
              | Inr wbb \<Rightarrow>
                  (case prune_writes h rest rs1 rbb wbb of
                     Inl e \<Rightarrow> Inl e
                   | Inr (rest', rs', rbb', wbb') \<Rightarrow> Inr ((x, wts1) # rest', rs', rbb', wbb'))))"

text \<open>Lines 287--313: both tables have one slot per block the graph owns.\<close>

definition preprocess ::
  "(bbref \<Rightarrow> BasicBlock) \<Rightarrow> nat \<Rightarrow> ReadsAndWrites \<Rightarrow>
     error + ReadsAndWrites \<times> varset list \<times> varset list" where
  "preprocess h n RnW =
     (case prune_reads (reads RnW) (writes RnW) of
        (rs, ws) \<Rightarrow>
          (case prune_writes h ws rs (replicate n []) (replicate n []) of
             Inl e \<Rightarrow> Inl e
           | Inr (ws', rs', rbb, wbb) \<Rightarrow> Inr (\<lparr>reads = rs', writes = ws'\<rparr>, rbb, wbb)))"

text \<open>Lines 324--331 and 345--349: slot \<open>i\<close> takes in the slots of the neighbours.\<close>

fun absorb :: "nat \<Rightarrow> nat list \<Rightarrow> varset list \<Rightarrow> error + varset list" where
  "absorb i [] ub = Inr ub"
| "absorb i (j # js) ub =
     (if j < length ub then absorb i js (ub[i := insert_range (ub ! j) (ub ! i)])
      else Inl OutOfBounds)"

text \<open>Lines 322--332 and 343--350, the body of either \<^verbatim>\<open>for\<close> loop for the block with id
  \<open>i\<close>: the slot takes in the block's own table entry, then the slots of the neighbours
  \<open>js\<close>; the flag says whether its size changed.\<close>

definition grow_block :: "varset list \<Rightarrow> nat \<Rightarrow> nat list \<Rightarrow> varset list \<Rightarrow> error + varset list \<times> bool" where
  "grow_block base i js ub =
     (if \<not> i < length ub \<or> \<not> i < length base then Inl OutOfBounds
      else case absorb i js (ub[i := insert_range (base ! i) (ub ! i)]) of
             Inl e \<Rightarrow> Inl e
           | Inr ub' \<Rightarrow> Inr (ub', length (ub' ! i) \<noteq> length (ub ! i)))"

text \<open>The neighbours the two fixpoints read: the exits other than the dead block (lines
  324 and 328), the back-edges other than the dead block (lines 345--346).\<close>

definition successor_ids :: "(bbref \<Rightarrow> BasicBlock) \<Rightarrow> bbref \<Rightarrow> bbref \<Rightarrow> nat list" where
  "successor_ids h dead bb =
     map (\<lambda>s. bb_id (h s)) (filter (\<lambda>s. s \<noteq> dead) [thenb (bexit (h bb)), elseb (bexit (h bb))])"

definition predecessor_ids :: "(bbref \<Rightarrow> BasicBlock) \<Rightarrow> bbref \<Rightarrow> bbref \<Rightarrow> nat list" where
  "predecessor_ids h dead bb =
     map (\<lambda>e. bb_id (h e)) (filter (\<lambda>e. e \<noteq> dead) (backEdges (h bb)))"

text \<open>One run of the \<^verbatim>\<open>for\<close> loop inside \<^verbatim>\<open>while (changed)\<close>.\<close>

fun grow_pass ::
  "(bbref \<Rightarrow> nat list) \<Rightarrow> (bbref \<Rightarrow> nat) \<Rightarrow> varset list \<Rightarrow> bbref list \<Rightarrow> varset list \<Rightarrow> bool \<Rightarrow>
     error + varset list \<times> bool" where
  "grow_pass nbrs idf base [] ub changed = Inr (ub, changed)"
| "grow_pass nbrs idf base (bb # bbs) ub changed =
     (case grow_block base (idf bb) (nbrs bb) ub of
        Inl e \<Rightarrow> Inl e
      | Inr (ub', grew) \<Rightarrow> grow_pass nbrs idf base bbs ub' (changed \<or> grew))"

subsection \<open>The fixpoint loops end\<close>

text \<open>The \<^verbatim>\<open>while (changed)\<close> loops of lines 319--334 and 339--352 are defined by
  well-founded recursion; the lemmas up to the termination proof show that a pass that
  sets \<^verbatim>\<open>changed\<close> has added a variable to a slot, and that slots only take variables
  of the tables.\<close>

text \<open>What is left to add: for every slot, the variables of the tables that it lacks.\<close>

definition universe :: "varset list \<Rightarrow> varset list \<Rightarrow> LocalVariable set" where
  "universe base ub = \<Union> (set ` (set base \<union> set ub))"

definition slack :: "varset list \<Rightarrow> varset list \<Rightarrow> nat" where
  "slack base ub = sum_list (map (\<lambda>s. card (universe base ub - set s)) ub)"

lemma set_insert_range: "set (insert_range src dst) = set src \<union> set dst"
  unfolding insert_range_def by (induction src arbitrary: dst) auto

lemma length_insert_range: "length dst \<le> length (insert_range src dst)"
  unfolding insert_range_def
proof (induction src arbitrary: dst)
  case Nil
  show ?case by simp
next
  case (Cons a src)
  have "length dst \<le> length (List.insert a dst)" by (simp add: List.insert_def)
  also have "\<dots> \<le> length (fold List.insert src (List.insert a dst))" by (rule Cons)
  finally show ?case by simp
qed

lemma insert_range_same:
  "length (insert_range src dst) = length dst \<Longrightarrow> insert_range src dst = dst \<and> set src \<subseteq> set dst"
  unfolding insert_range_def
proof (induction src arbitrary: dst)
  case Nil
  show ?case by simp
next
  case (Cons a src)
  have le1: "length dst \<le> length (List.insert a dst)" by (simp add: List.insert_def)
  have le2: "length (List.insert a dst) \<le> length (fold List.insert src (List.insert a dst))"
    using length_insert_range[of "List.insert a dst" src] by (simp add: insert_range_def)
  have eq: "length (fold List.insert src (List.insert a dst)) = length dst"
    using Cons.prems by simp
  have a: "List.insert a dst = dst" using le1 le2 eq by (auto simp: List.insert_def split: if_splits)
  then have ain: "a \<in> set dst" by (auto simp: List.insert_def split: if_splits)
  show ?case using Cons.IH[of dst] eq a ain by simp
qed

lemma insert_range_subset: "set src \<subseteq> set dst \<Longrightarrow> insert_range src dst = dst"
  unfolding insert_range_def by (induction src arbitrary: dst) auto

lemma absorb_facts:
  "absorb i js ub = Inr ub' \<Longrightarrow> i < length ub \<Longrightarrow>
   length ub' = length ub \<and>
   (\<forall>k. k \<noteq> i \<longrightarrow> ub' ! k = ub ! k) \<and>
   set (ub ! i) \<subseteq> set (ub' ! i) \<and>
   set (ub' ! i) \<subseteq> \<Union> (set ` set ub) \<and>
   (\<forall>j \<in> set js. j < length ub \<and> set (ub ! j) \<subseteq> set (ub' ! i)) \<and>
   (set (ub' ! i) \<subseteq> set (ub ! i) \<longrightarrow> ub' = ub) \<and>
   length (ub ! i) \<le> length (ub' ! i) \<and>
   (length (ub' ! i) = length (ub ! i) \<longrightarrow> ub' = ub)"
proof (induction js arbitrary: ub)
  case Nil
  then have "set (ub ! i) \<subseteq> \<Union> (set ` set ub)" using nth_mem[of i ub] by blast
  moreover have "ub' = ub" using Nil.prems(1) by simp
  ultimately show ?case by simp
next
  case (Cons j js)
  let ?ub1 = "ub[i := insert_range (ub ! j) (ub ! i)]"
  have j: "j < length ub" and r: "absorb i js ?ub1 = Inr ub'"
    using Cons.prems(1) by (auto split: if_splits)
  have i: "i < length ub" by (rule Cons.prems(2))
  have i1: "i < length ?ub1" using i by simp
  note IH = Cons.IH[OF r i1]
  have IHlen: "length ub' = length ?ub1"
    and IHoth: "\<forall>k. k \<noteq> i \<longrightarrow> ub' ! k = ?ub1 ! k"
    and IHmono: "set (?ub1 ! i) \<subseteq> set (ub' ! i)"
    and IHbound: "set (ub' ! i) \<subseteq> \<Union> (set ` set ?ub1)"
    and IHnb: "\<forall>j \<in> set js. j < length ?ub1 \<and> set (?ub1 ! j) \<subseteq> set (ub' ! i)"
    and IHfix: "set (ub' ! i) \<subseteq> set (?ub1 ! i) \<longrightarrow> ub' = ?ub1"
    and IHle: "length (?ub1 ! i) \<le> length (ub' ! i)"
    and IHlfix: "length (ub' ! i) = length (?ub1 ! i) \<longrightarrow> ub' = ?ub1"
    using IH by blast+
  have len: "length ub' = length ub" using IHlen by simp
  have oth: "\<forall>k. k \<noteq> i \<longrightarrow> ub' ! k = ub ! k" using IHoth by simp
  have g1: "set (?ub1 ! i) = set (ub ! j) \<union> set (ub ! i)" using i by (simp add: set_insert_range)
  have grow: "set (?ub1 ! i) \<subseteq> set (ub' ! i)" by (rule IHmono)
  have mono: "set (ub ! i) \<subseteq> set (ub' ! i)" using grow g1 by blast
  have mem: "ub ! j \<in> set ub" "ub ! i \<in> set ub" using i j by simp_all
  have "set ?ub1 \<subseteq> insert (insert_range (ub ! j) (ub ! i)) (set ub)"
    by (rule set_update_subset_insert)
  moreover have "set (insert_range (ub ! j) (ub ! i)) \<subseteq> \<Union> (set ` set ub)"
    using mem by (auto simp: set_insert_range)
  ultimately have "\<Union> (set ` set ?ub1) \<subseteq> \<Union> (set ` set ub)" by auto
  then have bound: "set (ub' ! i) \<subseteq> \<Union> (set ` set ub)" by (rule order_trans[OF IHbound])
  have nb: "\<forall>j' \<in> set (j # js). j' < length ub \<and> set (ub ! j') \<subseteq> set (ub' ! i)"
  proof
    fix j' assume "j' \<in> set (j # js)"
    then consider "j' = j" | "j' \<in> set js" by auto
    then show "j' < length ub \<and> set (ub ! j') \<subseteq> set (ub' ! i)"
    proof cases
      case 1
      then show ?thesis using grow g1 j by auto
    next
      case 2
      then have a: "j' < length ?ub1" and b: "set (?ub1 ! j') \<subseteq> set (ub' ! i)"
        using IHnb by auto
      have "set (ub ! j') \<subseteq> set (?ub1 ! j')"
        using a by (cases "j' = i") (auto simp: set_insert_range)
      then show ?thesis using a b by auto
    qed
  qed
  have fixd: "set (ub' ! i) \<subseteq> set (ub ! i) \<longrightarrow> ub' = ub"
  proof
    assume sub: "set (ub' ! i) \<subseteq> set (ub ! i)"
    then have "set (ub' ! i) \<subseteq> set (?ub1 ! i)" using g1 by blast
    then have e: "ub' = ?ub1" using IHfix by blast
    then have "set (ub ! j) \<subseteq> set (ub ! i)" using sub g1 by auto
    then have "insert_range (ub ! j) (ub ! i) = ub ! i" by (rule insert_range_subset)
    then show "ub' = ub" using e by simp
  qed
  have l1: "length (ub ! i) \<le> length (?ub1 ! i)" using i by (simp add: length_insert_range)
  have l2: "length (?ub1 ! i) \<le> length (ub' ! i)" by (rule IHle)
  have lfix: "length (ub' ! i) = length (ub ! i) \<longrightarrow> ub' = ub"
  proof
    assume eq: "length (ub' ! i) = length (ub ! i)"
    then have "length (?ub1 ! i) = length (ub ! i)" using l1 l2 by simp
    then have "length (insert_range (ub ! j) (ub ! i)) = length (ub ! i)" using i by simp
    then have "insert_range (ub ! j) (ub ! i) = ub ! i" by (rule insert_range_same[THEN conjunct1])
    then have u: "?ub1 = ub" by simp
    have "length (ub' ! i) = length (?ub1 ! i)" using eq l1 l2 by simp
    then have "ub' = ?ub1" using IHlfix by blast
    then show "ub' = ub" using u by simp
  qed
  have lle: "length (ub ! i) \<le> length (ub' ! i)" using l1 l2 by simp
  show ?case
    apply (intro conjI)
           apply (fact len)
          apply (fact oth)
         apply (fact mono)
        apply (fact bound)
       apply (fact nb)
      apply (fact fixd)
     apply (fact lle)
    apply (fact lfix)
    done
qed

lemma grow_block_facts:
  assumes "grow_block base i js ub = Inr (ub', grew)"
  shows "i < length ub \<and> length ub' = length ub \<and>
   (\<forall>k. k \<noteq> i \<longrightarrow> ub' ! k = ub ! k) \<and>
   set (ub ! i) \<subseteq> set (ub' ! i) \<and>
   set (base ! i) \<subseteq> set (ub' ! i) \<and>
   set (ub' ! i) \<subseteq> universe base ub \<and>
   (\<forall>j \<in> set js. j < length ub \<and> set (ub ! j) \<subseteq> set (ub' ! i)) \<and>
   (grew \<longrightarrow> set (ub ! i) \<subset> set (ub' ! i)) \<and>
   (\<not> grew \<longrightarrow> ub' = ub)"
proof -
  let ?ub1 = "ub[i := insert_range (base ! i) (ub ! i)]"
  have i: "i < length ub" and ib: "i < length base" and r: "absorb i js ?ub1 = Inr ub'"
    and g: "grew = (length (ub' ! i) \<noteq> length (ub ! i))"
    using assms by (auto simp: grow_block_def split: if_splits sum.splits)
  have i1: "i < length ?ub1" using i by simp
  note A = absorb_facts[OF r i1]
  have Alen: "length ub' = length ?ub1"
    and Aoth: "\<forall>k. k \<noteq> i \<longrightarrow> ub' ! k = ?ub1 ! k"
    and Amono: "set (?ub1 ! i) \<subseteq> set (ub' ! i)"
    and Abound: "set (ub' ! i) \<subseteq> \<Union> (set ` set ?ub1)"
    and Anb: "\<forall>j \<in> set js. j < length ?ub1 \<and> set (?ub1 ! j) \<subseteq> set (ub' ! i)"
    and Afix: "set (ub' ! i) \<subseteq> set (?ub1 ! i) \<longrightarrow> ub' = ?ub1"
    and Ale: "length (?ub1 ! i) \<le> length (ub' ! i)"
    and Alfix: "length (ub' ! i) = length (?ub1 ! i) \<longrightarrow> ub' = ?ub1"
    using A by blast+
  have s1: "set (?ub1 ! i) = set (base ! i) \<union> set (ub ! i)" using i by (simp add: set_insert_range)
  have len: "length ub' = length ub" using Alen by simp
  have oth: "\<forall>k. k \<noteq> i \<longrightarrow> ub' ! k = ub ! k" using Aoth by simp
  have mono: "set (ub ! i) \<subseteq> set (ub' ! i)" and bs: "set (base ! i) \<subseteq> set (ub' ! i)"
    using Amono s1 by auto
  have mem: "base ! i \<in> set base" "ub ! i \<in> set ub" using i ib by simp_all
  have "set ?ub1 \<subseteq> insert (insert_range (base ! i) (ub ! i)) (set ub)"
    by (rule set_update_subset_insert)
  moreover have "set (insert_range (base ! i) (ub ! i)) \<subseteq> universe base ub"
    using mem by (auto simp: set_insert_range universe_def)
  moreover have "\<Union> (set ` set ub) \<subseteq> universe base ub" by (auto simp: universe_def)
  ultimately have "\<Union> (set ` set ?ub1) \<subseteq> universe base ub" by auto
  then have bound: "set (ub' ! i) \<subseteq> universe base ub" by (rule order_trans[OF Abound])
  have nb: "\<forall>j \<in> set js. j < length ub \<and> set (ub ! j) \<subseteq> set (ub' ! i)"
  proof
    fix j assume "j \<in> set js"
    then have a: "j < length ?ub1" and b: "set (?ub1 ! j) \<subseteq> set (ub' ! i)" using Anb by auto
    have "set (ub ! j) \<subseteq> set (?ub1 ! j)" using a by (cases "j = i") (auto simp: set_insert_range)
    then show "j < length ub \<and> set (ub ! j) \<subseteq> set (ub' ! i)" using a b by auto
  qed
  have same: "set (ub' ! i) \<subseteq> set (ub ! i) \<Longrightarrow> ub' = ub"
  proof -
    assume sub: "set (ub' ! i) \<subseteq> set (ub ! i)"
    then have "set (ub' ! i) \<subseteq> set (?ub1 ! i)" using s1 by blast
    then have e: "ub' = ?ub1" using Afix by blast
    then have "set (base ! i) \<subseteq> set (ub ! i)" using sub s1 by auto
    then have "insert_range (base ! i) (ub ! i) = ub ! i" by (rule insert_range_subset)
    then show "ub' = ub" using e by simp
  qed
  have strict: "grew \<longrightarrow> set (ub ! i) \<subset> set (ub' ! i)"
    using same mono g by auto
  have l1: "length (ub ! i) \<le> length (?ub1 ! i)" using i by (simp add: length_insert_range)
  have l2: "length (?ub1 ! i) \<le> length (ub' ! i)" by (rule Ale)
  have stay: "\<not> grew \<longrightarrow> ub' = ub"
  proof
    assume "\<not> grew"
    then have eq: "length (ub' ! i) = length (ub ! i)" using g by simp
    then have "length (?ub1 ! i) = length (ub ! i)" using l1 l2 by simp
    then have "length (insert_range (base ! i) (ub ! i)) = length (ub ! i)" using i by simp
    then have "insert_range (base ! i) (ub ! i) = ub ! i" by (rule insert_range_same[THEN conjunct1])
    then have u: "?ub1 = ub" by simp
    have "length (ub' ! i) = length (?ub1 ! i)" using eq l1 l2 by simp
    then have "ub' = ?ub1" using Alfix by blast
    then show "ub' = ub" using u by simp
  qed
  show ?thesis
    apply (intro conjI)
            apply (fact i)
           apply (fact len)
          apply (fact oth)
         apply (fact mono)
        apply (fact bs)
       apply (fact bound)
      apply (fact nb)
     apply (fact strict)
    apply (fact stay)
    done
qed

text \<open>\<open>ub'\<close> has the slots of \<open>ub\<close>, each with at least its variables and none from
  outside the tables.\<close>

definition grown :: "varset list \<Rightarrow> varset list \<Rightarrow> varset list \<Rightarrow> bool" where
  "grown base ub ub' =
     (length ub' = length ub \<and>
      (\<forall>k<length ub. set (ub ! k) \<subseteq> set (ub' ! k) \<and> set (ub' ! k) \<subseteq> universe base ub))"


lemma finite_universe: "finite (universe base ub)"
  by (simp add: universe_def)

lemma slot_in_universe: "k < length ub \<Longrightarrow> set (ub ! k) \<subseteq> universe base ub"
  using nth_mem[of k ub] by (auto simp: universe_def)

lemma grown_refl: "grown base ub ub"
  by (simp add: grown_def slot_in_universe)

lemma grown_universe:
  assumes "grown base ub ub'"
  shows "universe base ub' = universe base ub"
proof
  show "universe base ub' \<subseteq> universe base ub"
  proof
    fix x assume "x \<in> universe base ub'"
    then consider "x \<in> \<Union> (set ` set base)" | "x \<in> \<Union> (set ` set ub')"
      by (auto simp: universe_def)
    then show "x \<in> universe base ub"
    proof cases
      case 1
      then show ?thesis by (auto simp: universe_def)
    next
      case 2
      then obtain s where "s \<in> set ub'" "x \<in> set s" by auto
      then obtain k where "k < length ub'" "x \<in> set (ub' ! k)"
        by (metis in_set_conv_nth)
      then show ?thesis using assms by (auto simp: grown_def)
    qed
  qed
next
  show "universe base ub \<subseteq> universe base ub'"
  proof
    fix x assume "x \<in> universe base ub"
    then consider "x \<in> \<Union> (set ` set base)" | "x \<in> \<Union> (set ` set ub)"
      by (auto simp: universe_def)
    then show "x \<in> universe base ub'"
    proof cases
      case 1
      then show ?thesis by (auto simp: universe_def)
    next
      case 2
      then obtain s where "s \<in> set ub" "x \<in> set s" by auto
      then obtain k where k: "k < length ub" "x \<in> set (ub ! k)"
        by (metis in_set_conv_nth)
      then have "x \<in> set (ub' ! k)" "k < length ub'" using assms by (auto simp: grown_def)
      then show ?thesis using slot_in_universe[of k ub' base] by blast
    qed
  qed
qed

lemma grown_trans:
  assumes "grown base a b" and "grown base b c"
  shows "grown base a c"
  using assms grown_universe[OF assms(1)] unfolding grown_def by fastforce

lemma slack_sum: "slack base ub = (\<Sum>k = 0..<length ub. card (universe base ub - set (ub ! k)))"
  unfolding slack_def by (simp add: sum_list_sum_nth)

lemma grown_slack:
  assumes g: "grown base ub ub'"
  shows "slack base ub' \<le> slack base ub"
    and "k < length ub \<Longrightarrow> set (ub ! k) \<subset> set (ub' ! k) \<Longrightarrow> slack base ub' < slack base ub"
proof -
  let ?U = "universe base ub"
  have U: "universe base ub' = ?U" using g by (rule grown_universe)
  have len: "length ub' = length ub" using g by (simp add: grown_def)
  have le: "\<And>m. m < length ub \<Longrightarrow> card (?U - set (ub' ! m)) \<le> card (?U - set (ub ! m))"
  proof -
    fix m assume "m < length ub"
    then have "?U - set (ub' ! m) \<subseteq> ?U - set (ub ! m)" using g by (auto simp: grown_def)
    then show "card (?U - set (ub' ! m)) \<le> card (?U - set (ub ! m))"
      by (intro card_mono) (simp_all add: finite_universe)
  qed
  show "slack base ub' \<le> slack base ub"
    unfolding slack_sum U len by (intro sum_mono) (simp add: le)
  assume k: "k < length ub" and st: "set (ub ! k) \<subset> set (ub' ! k)"
  have "set (ub' ! k) \<subseteq> ?U" using g k by (simp add: grown_def)
  then have "?U - set (ub' ! k) \<subset> ?U - set (ub ! k)" using st by blast
  then have lt: "card (?U - set (ub' ! k)) < card (?U - set (ub ! k))"
    by (intro psubset_card_mono) (simp_all add: finite_universe)
  show "slack base ub' < slack base ub"
    unfolding slack_sum U len
  proof (rule sum_strict_mono_ex1)
    show "finite {0..<length ub}" by simp
    show "\<forall>x\<in>{0..<length ub}. card (?U - set (ub' ! x)) \<le> card (?U - set (ub ! x))"
      using le by simp
    show "\<exists>a\<in>{0..<length ub}. card (?U - set (ub' ! a)) < card (?U - set (ub ! a))"
      using k lt by auto
  qed
qed

lemma grow_block_grown:
  assumes "grow_block base i js ub = Inr (ub', grew)"
  shows "grown base ub ub'" and "grew \<Longrightarrow> slack base ub' < slack base ub"
proof -
  note F = grow_block_facts[OF assms]
  have i: "i < length ub" and len: "length ub' = length ub"
    and oth: "\<forall>k. k \<noteq> i \<longrightarrow> ub' ! k = ub ! k"
    and mono: "set (ub ! i) \<subseteq> set (ub' ! i)"
    and bound: "set (ub' ! i) \<subseteq> universe base ub"
    and strict: "grew \<longrightarrow> set (ub ! i) \<subset> set (ub' ! i)"
    using F by blast+
  show g: "grown base ub ub'"
    unfolding grown_def
  proof (intro conjI allI impI)
    show "length ub' = length ub" by (rule len)
  next
    fix k assume "k < length ub"
    then show "set (ub ! k) \<subseteq> set (ub' ! k)" using oth mono by (cases "k = i") auto
  next
    fix k assume k: "k < length ub"
    show "set (ub' ! k) \<subseteq> universe base ub"
    proof (cases "k = i")
      case True
      then show ?thesis using bound by simp
    next
      case False
      then show ?thesis using oth slot_in_universe[OF k, of base] by simp
    qed
  qed
  assume grew
  then show "slack base ub' < slack base ub" using grown_slack(2)[OF g i] strict by blast
qed

lemma grow_pass_grown:
  "grow_pass nbrs idf base bbs ub ch = Inr (ub', ch') \<Longrightarrow>
   grown base ub ub' \<and> (ch' \<longrightarrow> ch \<or> slack base ub' < slack base ub)"
proof (induction bbs arbitrary: ub ch)
  case Nil
  then show ?case by (auto simp: grown_refl)
next
  case (Cons bb bbs)
  from Cons.prems obtain ub1 grew where
    1: "grow_block base (idf bb) (nbrs bb) ub = Inr (ub1, grew)"
    and 2: "grow_pass nbrs idf base bbs ub1 (ch \<or> grew) = Inr (ub', ch')"
    by (auto split: sum.splits)
  have g1: "grown base ub ub1" and s1: "grew \<Longrightarrow> slack base ub1 < slack base ub"
    using grow_block_grown[OF 1] by auto
  have g2: "grown base ub1 ub'" and s2: "ch' \<longrightarrow> (ch \<or> grew) \<or> slack base ub' < slack base ub1"
    using Cons.IH[OF 2] by auto
  have le1: "slack base ub1 \<le> slack base ub" using grown_slack(1)[OF g1] .
  have le2: "slack base ub' \<le> slack base ub1" using grown_slack(1)[OF g2] .
  have "grown base ub ub'" using g1 g2 by (rule grown_trans)
  moreover have "ch' \<longrightarrow> ch \<or> slack base ub' < slack base ub"
    using s1 s2 le1 le2 by auto
  ultimately show ?case by simp
qed

function grow_loop ::
  "(bbref \<Rightarrow> nat list) \<Rightarrow> (bbref \<Rightarrow> nat) \<Rightarrow> varset list \<Rightarrow> bbref list \<Rightarrow> varset list \<Rightarrow>
     error + varset list" where
  "grow_loop nbrs idf base ts ub =
     (case grow_pass nbrs idf base ts ub False of
        Inl e \<Rightarrow> Inl e
      | Inr (ub', changed) \<Rightarrow>
          if changed then grow_loop nbrs idf base ts ub' else Inr ub')"
  by pat_completeness auto
termination
proof (relation "measure (\<lambda>(nbrs, idf, base, ts, ub). slack base ub)")
  show "wf (measure (\<lambda>(nbrs, idf, base, ts, ub). slack base ub))" by simp
next
  fix nbrs :: "bbref \<Rightarrow> nat list" and idf :: "bbref \<Rightarrow> nat" and base ts ub x2 ub' changed
  assume "grow_pass nbrs idf base ts ub False = Inr x2" and "(ub', changed) = x2" and changed
  then have "slack base ub' < slack base ub"
    using grow_pass_grown[of nbrs idf base ts ub False ub' True] by auto
  then show "((nbrs, idf, base, ts, ub'), (nbrs, idf, base, ts, ub))
        \<in> measure (\<lambda>(nbrs, idf, base, ts, ub). slack base ub)" by simp
qed

declare grow_loop.simps [simp del]

text \<open>Lines 355--369: the arguments of every block the graph owns are the variables of its
  \<open>upper_bounds1\<close> slot that its \<open>upper_bounds2\<close> slot has too, pushed onto \<open>args\<close> and
  sorted by name. \<^verbatim>\<open>std::sort\<close> may order variables of one name either way; the
  embedding keeps them as they stood.\<close>

fun fill_args ::
  "varset list \<Rightarrow> varset list \<Rightarrow> bbref list \<Rightarrow> (bbref \<Rightarrow> BasicBlock) \<Rightarrow>
     error + (bbref \<Rightarrow> BasicBlock)" where
  "fill_args upper_bounds1 upper_bounds2 [] h = Inr h"
| "fill_args upper_bounds1 upper_bounds2 (it # its) h =
     (case at upper_bounds2 (bb_id (h it)) of
        Inl e \<Rightarrow> Inl e
      | Inr set2 \<Rightarrow>
          (case at upper_bounds1 (bb_id (h it)) of
             Inl e \<Rightarrow> Inl e
           | Inr set1 \<Rightarrow>
               fill_args upper_bounds1 upper_bounds2 its
                 (h(it := (h it)
                      \<lparr>args := sort_key name
                                 (args (h it) @ filter (\<lambda>el. el \<in> set set2) set1)\<rparr>))))"

definition fillInBlockArguments ::
  "Context \<Rightarrow> ReadsAndWrites \<Rightarrow> CFG \<Rightarrow> error + ReadsAndWrites \<times> CFG" where
  "fillInBlockArguments ctx RnW cfg =
     (let h = heap cfg;
          n = length (basicBlocks cfg);
          idf = (\<lambda>bb. bb_id (h bb))
      in case preprocess h n RnW of
           Inl e \<Rightarrow> Inl e
         | Inr (RnW', reads_by_block, writes_by_block) \<Rightarrow>
             (case grow_loop (successor_ids h (deadBlock cfg)) idf reads_by_block
                     (forwardsTopoSort cfg) (replicate n []) of
                Inl e \<Rightarrow> Inl e
              | Inr upper_bounds1 \<Rightarrow>
                  (case grow_loop (predecessor_ids h (deadBlock cfg)) idf writes_by_block
                          (backwardsTopoSort cfg) (replicate n []) of
                     Inl e \<Rightarrow> Inl e
                   | Inr upper_bounds2 \<Rightarrow>
                       (case fill_args upper_bounds1 upper_bounds2 (basicBlocks cfg) h of
                          Inl e \<Rightarrow> Inl e
                        | Inr h' \<Rightarrow> Inr (RnW', cfg\<lparr>heap := h'\<rparr>)))))"

section \<open>topoSortBwd\<close>

text \<open>The graph's memory, the \<^verbatim>\<open>target\<close> vector and \<^verbatim>\<open>nextFree\<close>: what a call reads and
  leaves behind.\<close>

type_synonym sort_state = "(bbref \<Rightarrow> BasicBlock) \<times> bbref list \<times> nat"

definition mark :: "Flag \<Rightarrow> bbref \<Rightarrow> (bbref \<Rightarrow> BasicBlock) \<Rightarrow> (bbref \<Rightarrow> BasicBlock)" where
  "mark f bb h = h(bb := (h bb)\<lparr>flags := insert f (flags (h bb))\<rparr>)"

text \<open>\<^verbatim>\<open>target[nextFree] = currentBB; nextFree = nextFree + 1\<close>.\<close>

fun put :: "bbref \<Rightarrow> sort_state \<Rightarrow> error + sort_state" where
  "put bb (h, target, nextFree) =
     (if nextFree < length target then Inr (h, target[nextFree := bb], nextFree + 1)
      else Inl OutOfBounds)"

text \<open>
  \<open>topoSortBwd\<close> is lines 396--422, \<open>bwd_edges\<close> one of the three \<^verbatim>\<open>while\<close> loops over
  the back-edges from index \<open>i\<close> on: with \<open>outer\<close> the loop of lines 402--405, which stops
  at the first back-edge that is not from a shallower block, without it the loops of lines
  409--412 and 414--417. A loop returns the index it stopped at. The recursion follows the
  graph, so it takes fuel: \<open>None\<close> says the fuel ran out.
\<close>

fun topoSortBwd :: "nat \<Rightarrow> sort_state \<Rightarrow> bbref \<Rightarrow> (error + sort_state) option"
  and bwd_edges :: "nat \<Rightarrow> bool \<Rightarrow> sort_state \<Rightarrow> bbref \<Rightarrow> nat \<Rightarrow> (error + sort_state \<times> nat) option"
  where
  "topoSortBwd 0 s currentBB = None"
| "topoSortBwd (Suc n) (h, target, nextFree) currentBB =
     (if BACKWARD_TOPO_SORT_VISITED \<in> flags (h currentBB) then Some (Inr (h, target, nextFree))
      else case bwd_edges n True (mark BACKWARD_TOPO_SORT_VISITED currentBB h, target, nextFree)
                  currentBB 0 of
             None \<Rightarrow> None
           | Some (Inl e) \<Rightarrow> Some (Inl e)
           | Some (Inr (s1, i)) \<Rightarrow>
               if i > 0 then
                 (case put currentBB s1 of
                    Inl e \<Rightarrow> Some (Inl e)
                  | Inr s2 \<Rightarrow>
                      (case bwd_edges n False s2 currentBB i of
                         None \<Rightarrow> None
                       | Some (Inl e) \<Rightarrow> Some (Inl e)
                       | Some (Inr (s3, i')) \<Rightarrow> Some (Inr s3)))
               else
                 (case bwd_edges n False s1 currentBB i of
                    None \<Rightarrow> None
                  | Some (Inl e) \<Rightarrow> Some (Inl e)
                  | Some (Inr (s2, i')) \<Rightarrow> Some (put currentBB s2)))"
| "bwd_edges 0 outer s currentBB i = None"
| "bwd_edges (Suc n) outer (h, target, nextFree) currentBB i =
     (if i < length (backEdges (h currentBB)) \<and>
         (outer \<longrightarrow> outerLoops (h currentBB) > outerLoops (h (backEdges (h currentBB) ! i)))
      then case topoSortBwd n (h, target, nextFree) (backEdges (h currentBB) ! i) of
             None \<Rightarrow> None
           | Some (Inl e) \<Rightarrow> Some (Inl e)
           | Some (Inr s') \<Rightarrow> bwd_edges n outer s' currentBB (i + 1)
      else Some (Inr ((h, target, nextFree), i)))"

section \<open>Properties of dealias\<close>

text \<open>What dealias may do to an operand: a variable that is no synthetic temporary stays.\<close>

definition kept :: "Context \<Rightarrow> LocalVariable \<Rightarrow> LocalVariable \<Rightarrow> bool" where
  "kept ctx w w' = (isSyntheticTemporary ctx w \<or> w' = w)"

text \<open>Two instructions of the same variant that differ at most in the operands dealias
  rewrites: \<^verbatim>\<open>Ident.what\<close>, \<^verbatim>\<open>Send.recv\<close>, the elements of \<^verbatim>\<open>Send.args\<close> and
  \<^verbatim>\<open>Return.what\<close>.\<close>

fun same_but_operands :: "Context \<Rightarrow> Instruction option \<Rightarrow> Instruction option \<Rightarrow> bool" where
  "same_but_operands ctx (Some (Ident w)) v' =
     (case v' of Some (Ident w') \<Rightarrow> kept ctx w w' | _ \<Rightarrow> False)"
| "same_but_operands ctx (Some (Send r f as)) v' =
     (case v' of
        Some (Send r' f' as') \<Rightarrow> kept ctx r r' \<and> f' = f \<and> list_all2 (kept ctx) as as'
      | _ \<Rightarrow> False)"
| "same_but_operands ctx (Some (Return w)) v' =
     (case v' of Some (Return w') \<Rightarrow> kept ctx w w' | _ \<Rightarrow> False)"
| "same_but_operands ctx v v' = (v' = v)"

definition binding_frame :: "Context \<Rightarrow> Binding \<Rightarrow> Binding \<Rightarrow> bool" where
  "binding_frame ctx b b' = (bind b' = bind b \<and> same_but_operands ctx (bvalue b) (bvalue b'))"

text \<open>Two states of a block that differ at most in those operands and in the condition
  of the exit.\<close>

definition block_frame :: "Context \<Rightarrow> BasicBlock \<Rightarrow> BasicBlock \<Rightarrow> bool" where
  "block_frame ctx b b' =
     (bb_id b' = bb_id b \<and> flags b' = flags b \<and> backEdges b' = backEdges b \<and>
      outerLoops b' = outerLoops b \<and> args b' = args b \<and>
      thenb (bexit b') = thenb (bexit b) \<and> elseb (bexit b') = elseb (bexit b) \<and>
      kept ctx (cond (bexit b)) (cond (bexit b')) \<and>
      list_all2 (binding_frame ctx) (exprs b) (exprs b'))"

text \<open>An alias map in which no value is itself replaced by a lookup.\<close>

definition no_chain :: "Context \<Rightarrow> aliases \<Rightarrow> bool" where
  "no_chain ctx m = (\<forall>k v. m k = Some v \<longrightarrow> maybeDealias ctx v m = v)"

definition submap :: "aliases \<Rightarrow> aliases \<Rightarrow> bool" where
  "submap m' m = (\<forall>k v. m' k = Some v \<longrightarrow> m k = Some v)"

section \<open>Properties of fillInBlockArguments\<close>

text \<open>
  The two over-approximations as the spec has them. Slot \<open>i\<close> of a table belongs to the
  blocks with id \<open>i\<close>. A variable flows into the slot of a listed block when the block's own
  table entry has it, or when it flows into the slot of a neighbour of the block: these
  rules are the least solution of
  \<open>UB[b] = table[b] \<union> \<Union> {UB[n] | n neighbour of b}\<close>.
\<close>

inductive flows ::
  "(bbref \<Rightarrow> nat list) \<Rightarrow> (bbref \<Rightarrow> nat) \<Rightarrow> varset list \<Rightarrow> bbref list \<Rightarrow> nat \<Rightarrow> LocalVariable \<Rightarrow> bool"
  for nbrs idf base ts where
    own: "bb \<in> set ts \<Longrightarrow> idf bb < length base \<Longrightarrow> x \<in> set (base ! idf bb) \<Longrightarrow>
          flows nbrs idf base ts (idf bb) x"
  | via: "bb \<in> set ts \<Longrightarrow> j \<in> set (nbrs bb) \<Longrightarrow> flows nbrs idf base ts j x \<Longrightarrow>
          flows nbrs idf base ts (idf bb) x"

text \<open>UB1 reads \<^verbatim>\<open>reads_by_block\<close> along the exits of the blocks of \<^verbatim>\<open>forwardsTopoSort\<close>,
  UB2 reads \<^verbatim>\<open>writes_by_block\<close> along the back-edges of the blocks of
  \<^verbatim>\<open>backwardsTopoSort\<close>; the dead block is no neighbour.\<close>

definition UB1 :: "CFG \<Rightarrow> varset list \<Rightarrow> nat \<Rightarrow> LocalVariable set" where
  "UB1 cfg reads_by_block i =
     {x. flows (successor_ids (heap cfg) (deadBlock cfg)) (\<lambda>bb. bb_id (heap cfg bb))
           reads_by_block (forwardsTopoSort cfg) i x}"

definition UB2 :: "CFG \<Rightarrow> varset list \<Rightarrow> nat \<Rightarrow> LocalVariable set" where
  "UB2 cfg writes_by_block i =
     {x. flows (predecessor_ids (heap cfg) (deadBlock cfg)) (\<lambda>bb. bb_id (heap cfg bb))
           writes_by_block (backwardsTopoSort cfg) i x}"

text \<open>Every variable of a slot flows into it; the slots are closed under the two rules.\<close>

definition sound ::
  "(bbref \<Rightarrow> nat list) \<Rightarrow> (bbref \<Rightarrow> nat) \<Rightarrow> varset list \<Rightarrow> bbref list \<Rightarrow> varset list \<Rightarrow> bool" where
  "sound nbrs idf base ts ub =
     (\<forall>k<length ub. \<forall>x\<in>set (ub ! k). flows nbrs idf base ts k x)"

definition closed ::
  "(bbref \<Rightarrow> nat list) \<Rightarrow> (bbref \<Rightarrow> nat) \<Rightarrow> varset list \<Rightarrow> bbref list \<Rightarrow> varset list \<Rightarrow> bool" where
  "closed nbrs idf base bbs ub =
     (\<forall>bb\<in>set bbs. idf bb < length ub \<and> set (base ! idf bb) \<subseteq> set (ub ! idf bb) \<and>
        (\<forall>j\<in>set (nbrs bb). j < length ub \<and> set (ub ! j) \<subseteq> set (ub ! idf bb)))"

section \<open>Properties of removeDeadAssigns\<close>

text \<open>The bindings removeDeadAssigns keeps: those of an alias for a global, those whose
  variable is a key of \<open>reads\<close>, and those of an instruction outside the listed variants.\<close>

definition survives :: "Context \<Rightarrow> ReadsAndWrites \<Rightarrow> Binding \<Rightarrow> bool" where
  "survives ctx RnW b =
     (isAliasForGlobal ctx (bind b) \<or> bind b \<in> fst ` set (reads RnW) \<or> \<not> removable (bvalue b))"

section \<open>Properties of topoSortBwd\<close>

text \<open>The blocks a call finds visited, and the part of \<^verbatim>\<open>target\<close> written so far.\<close>

definition visited :: "(bbref \<Rightarrow> BasicBlock) \<Rightarrow> bbref set" where
  "visited h = {p. BACKWARD_TOPO_SORT_VISITED \<in> flags (h p)}"

fun emitted :: "sort_state \<Rightarrow> bbref list" where
  "emitted (h, target, nextFree) = take nextFree target"

fun sort_ok :: "sort_state \<Rightarrow> bool" where
  "sort_ok (h, target, nextFree) = (nextFree \<le> length target)"

text \<open>From \<open>s\<close> to \<open>s'\<close> the blocks \<open>new\<close> were visited and written, each once, and nothing
  but the flags and the array changed.\<close>

definition advances :: "sort_state \<Rightarrow> sort_state \<Rightarrow> bbref list \<Rightarrow> bool" where
  "advances s s' new =
     (sort_ok s' \<and> length (fst (snd s')) = length (fst (snd s)) \<and>
      emitted s' = emitted s @ new \<and> distinct new \<and>
      visited (fst s') = visited (fst s) \<union> set new \<and> set new \<inter> visited (fst s) = {} \<and>
      (\<forall>p. backEdges (fst s' p) = backEdges (fst s p) \<and> outerLoops (fst s' p) = outerLoops (fst s p)))"

text \<open>\<open>p\<close> is at a strictly lower loop depth than \<open>cur\<close>: the test of line 402.\<close>

definition lower :: "(bbref \<Rightarrow> BasicBlock) \<Rightarrow> bbref \<Rightarrow> bbref \<Rightarrow> bool" where
  "lower h cur p = (outerLoops (h p) < outerLoops (h cur))"

text \<open>A set of blocks that holds every predecessor of each of its blocks.\<close>

definition closed_under :: "bbref set \<Rightarrow> (bbref \<Rightarrow> BasicBlock) \<Rightarrow> bool" where
  "closed_under U h = (\<forall>p\<in>U. set (backEdges (h p)) \<subseteq> U)"

text \<open>The predecessors of a block, and the blocks from which a block of \<open>S\<close> is reached
  along back-edges through blocks outside \<open>V\<close> only: the ancestors of \<open>S\<close> that a search
  which has visited \<open>V\<close> can still find.\<close>

definition preds_of :: "(bbref \<Rightarrow> BasicBlock) \<Rightarrow> bbref \<Rightarrow> bbref list" where
  "preds_of h p = backEdges (h p)"

inductive_set fresh_anc :: "(bbref \<Rightarrow> bbref list) \<Rightarrow> bbref set \<Rightarrow> bbref set \<Rightarrow> bbref set"
  for preds :: "bbref \<Rightarrow> bbref list" and V :: "bbref set" and S :: "bbref set" where
    start: "p \<in> S \<Longrightarrow> p \<notin> V \<Longrightarrow> p \<in> fresh_anc preds V S"
  | step: "q \<in> fresh_anc preds V S \<Longrightarrow> p \<in> set (preds q) \<Longrightarrow> p \<notin> V \<Longrightarrow>
           p \<in> fresh_anc preds V S"

text \<open>The precondition of the spec (section 4.2): the strictly shallower predecessors of a
  block are a prefix of its back-edges.\<close>

definition depth_prefix :: "(bbref \<Rightarrow> BasicBlock) \<Rightarrow> bbref \<Rightarrow> bool" where
  "depth_prefix h b =
     (filter (lower h b) (backEdges (h b)) = takeWhile (lower h b) (backEdges (h b)))"

text \<open>What a run has written into \<^verbatim>\<open>target\<close>; nothing when it did not return normally.\<close>

definition written :: "(error + sort_state) option \<Rightarrow> bbref list" where
  "written r = (case r of Some (Inr s) \<Rightarrow> emitted s | _ \<Rightarrow> [])"

section \<open>The indices into the scratch arrays\<close>

text \<open>The indices \<^verbatim>\<open>outAliases\<close> is read and written at (lines 146, 148, 152): the id
  of every block of \<^verbatim>\<open>backwardsTopoSort\<close> but the dead one, and the ids of its
  predecessors.\<close>

definition dealias_indices :: "CFG \<Rightarrow> nat list" where
  "dealias_indices cfg =
     concat (map (\<lambda>bb. bb_id (heap cfg bb) # map (\<lambda>p. bb_id (heap cfg p)) (backEdges (heap cfg bb)))
               (filter (\<lambda>bb. bb \<noteq> deadBlock cfg) (backwardsTopoSort cfg)))"

text \<open>The blocks whose ids index \<^verbatim>\<open>reads_by_block\<close> and \<^verbatim>\<open>writes_by_block\<close> (lines 307--312):
  for every variable of \<open>writes\<close>, the blocks of its read set and, unless that is empty,
  those of its write set, both as the loop of lines 290--299 has left them.\<close>

definition table_blocks :: "ReadsAndWrites \<Rightarrow> bbref list" where
  "table_blocks RnW =
     (case prune_reads (reads RnW) (writes RnW) of
        (rs, ws) \<Rightarrow>
          concat (map (\<lambda>(x, wts). entry_of rs x @ (if entry_of rs x = [] then [] else wts)) ws))"

text \<open>All indices of \<open>fillInBlockArguments\<close>: those of the two tables, those of
  \<^verbatim>\<open>upper_bounds1\<close> (lines 322--329) and \<^verbatim>\<open>upper_bounds2\<close> (lines 343--347) in
  the fixpoint loops, and those of both in the last loop (lines 356--361).\<close>

definition fill_indices :: "ReadsAndWrites \<Rightarrow> CFG \<Rightarrow> nat list" where
  "fill_indices RnW cfg =
     map (\<lambda>bb. bb_id (heap cfg bb)) (table_blocks RnW) @
     concat (map (\<lambda>bb. bb_id (heap cfg bb) # successor_ids (heap cfg) (deadBlock cfg) bb)
               (forwardsTopoSort cfg)) @
     concat (map (\<lambda>bb. bb_id (heap cfg bb) # predecessor_ids (heap cfg) (deadBlock cfg) bb)
               (backwardsTopoSort cfg)) @
     map (\<lambda>bb. bb_id (heap cfg bb)) (basicBlocks cfg)"

text \<open>Every scratch array has \<^verbatim>\<open>cfg.basicBlocks.size()\<close> slots.\<close>

definition in_bounds :: "CFG \<Rightarrow> nat list \<Rightarrow> bool" where
  "in_bounds cfg is = list_all (\<lambda>i. i < length (basicBlocks cfg)) is"

section \<open>Example graphs\<close>

definition mkBlock ::
  "nat \<Rightarrow> Binding list \<Rightarrow> LocalVariable \<Rightarrow> bbref \<Rightarrow> bbref \<Rightarrow> bbref list \<Rightarrow> int \<Rightarrow> BasicBlock" where
  "mkBlock i es c t e ps d =
     \<lparr>bb_id = i, flags = {}, exprs = es, bexit = \<lparr>cond = c, thenb = t, elseb = e\<rparr>,
      backEdges = ps, outerLoops = d, args = []\<rparr>"

definition noVariable :: LocalVariable where
  "noVariable = LocalVariable 0 0"

text \<open>A graph whose blocks sit at the addresses \<open>0, 1, \<dots>\<close> in the order of the list,
  the entry block first and the dead block second.\<close>

definition mkCFG :: "BasicBlock list \<Rightarrow> CFG" where
  "mkCFG bs =
     \<lparr>heap = (\<lambda>p. if p < length bs then bs ! p else mkBlock p [] noVariable 1 1 [] 0),
      basicBlocks = [0..<length bs], entry = 0, deadBlock = 1,
      forwardsTopoSort = [], backwardsTopoSort = [],
      minLoops = Map.empty, maxLoopWrite = Map.empty\<rparr>"

definition assign :: "LocalVariable \<Rightarrow> Instruction \<Rightarrow> Binding" where
  "assign v i = \<lparr>bind = v, bvalue = Some i\<rparr>"

definition var_x :: LocalVariable where "var_x = LocalVariable 10 0"
definition var_c :: LocalVariable where "var_c = LocalVariable 11 0"
definition var_a :: LocalVariable where "var_a = LocalVariable 12 0"

text \<open>No variable is a synthetic temporary or an alias for a global.\<close>

definition plain_ctx :: Context where
  "plain_ctx = \<lparr>isSyntheticTemporary = (\<lambda>v. False), isAliasForGlobal = (\<lambda>v. False)\<rparr>"

text \<open>\<^verbatim>\<open>x = 1; if x.f then a = 2 else a = 3 end\<close>: the entry block 0 runs into block 2,
  which branches to the blocks 3 and 4; both end in the dead block 1.\<close>

definition branch_cfg :: CFG where
  "branch_cfg = mkCFG
     [mkBlock 0 [assign var_x (IntLit 1)] noVariable 2 2 [] 0,
      mkBlock 1 [] noVariable 1 1 [3, 4] 0,
      mkBlock 2 [assign var_c (Send var_x 20 [])] var_c 3 4 [0] 0,
      mkBlock 3 [assign var_a (IntLit 2)] noVariable 1 1 [2] 0,
      mkBlock 4 [assign var_a (IntLit 3)] noVariable 1 1 [2] 0]"

text \<open>The entry block 0 jumps to block 2, an empty block that jumps to itself.\<close>

definition selfloop_cfg :: CFG where
  "selfloop_cfg = mkCFG
     [mkBlock 0 [] noVariable 2 2 [] 0,
      mkBlock 1 [] noVariable 1 1 [] 0,
      mkBlock 2 [] noVariable 2 2 [2, 0] 0]"

text \<open>The entry block 0 jumps to block 2, an empty block header (its condition is named
  \<^verbatim>\<open>blockCall\<close>, here 7) with a second predecessor 4, whose two exits lead to block 3.\<close>

definition header_cfg :: CFG where
  "header_cfg = mkCFG
     [mkBlock 0 [assign var_x (IntLit 1)] noVariable 2 2 [] 0,
      mkBlock 1 [] noVariable 1 1 [3] 0,
      mkBlock 2 [] (LocalVariable 7 0) 3 3 [0, 4] 1,
      mkBlock 3 [assign var_c (Send var_x 20 [])] var_c 4 1 [2] 1,
      mkBlock 4 [assign var_a (IntLit 3)] noVariable 2 2 [3] 1]"


text \<open>The variables named 100 and above are synthetic temporaries.\<close>

definition temp_ctx :: Context where
  "temp_ctx = \<lparr>isSyntheticTemporary = (\<lambda>v. 100 \<le> name v), isAliasForGlobal = (\<lambda>v. False)\<rparr>"

definition tmp1 :: LocalVariable where "tmp1 = LocalVariable 101 0"
definition tmp2 :: LocalVariable where "tmp2 = LocalVariable 102 0"
definition tmp3 :: LocalVariable where "tmp3 = LocalVariable 103 0"

text \<open>A chain of copies \<^verbatim>\<open>t1 = x; t2 = t1; t3 = t2; c = t3.f(t1, t2)\<close> in the entry block,
  a branch on \<^verbatim>\<open>t3\<close> and a use of \<^verbatim>\<open>t2\<close> in the successor block 2.\<close>

definition copy_cfg :: CFG where
  "copy_cfg = (mkCFG
     [mkBlock 0 [assign tmp1 (Ident var_x), assign tmp2 (Ident tmp1), assign tmp3 (Ident tmp2),
                 assign var_c (Send tmp3 20 [tmp1, tmp2])] tmp3 2 1 [] 0,
      mkBlock 1 [] noVariable 1 1 [0, 2] 0,
      mkBlock 2 [assign var_a (Return tmp2)] noVariable 1 1 [0] 0])
     \<lparr>backwardsTopoSort := [0, 2, 1]\<rparr>"

definition var_b :: LocalVariable where "var_b = LocalVariable 13 0"
definition var_r :: LocalVariable where "var_r = LocalVariable 14 0"

text \<open>A diamond: the entry block 0 branches to the blocks 2 and 3, which join in block 4.
  \<^verbatim>\<open>a\<close> is written in block 0 and read in the blocks 0 and 4, \<^verbatim>\<open>c\<close> is written and read
  in block 0 only, \<^verbatim>\<open>b\<close> is written in the blocks 2 and 3 and read in block 4, \<^verbatim>\<open>r\<close> and
  \<^verbatim>\<open>x\<close> are written in block 4 and never read.\<close>

definition diamond_cfg :: CFG where
  "diamond_cfg = (mkCFG
     [mkBlock 0 [assign var_a (IntLit 1), assign var_c (Ident var_a)] var_c 2 3 [] 0,
      mkBlock 1 [] noVariable 1 1 [4] 0,
      mkBlock 2 [assign var_b (IntLit 2)] noVariable 4 4 [0] 0,
      mkBlock 3 [assign var_b (IntLit 3)] noVariable 4 4 [0] 0,
      mkBlock 4 [assign var_r (IntLit 0), assign var_x (Send var_b 21 [var_a])]
        noVariable 1 1 [2, 3] 0])
     \<lparr>forwardsTopoSort := [1, 4, 2, 3, 0], backwardsTopoSort := [0, 2, 3, 4, 1]\<rparr>"

definition diamond_RnW :: ReadsAndWrites where
  "diamond_RnW =
     \<lparr>reads = [(var_a, [0, 4]), (var_c, [0]), (var_b, [4])],
      writes = [(var_a, [0]), (var_c, [0]), (var_b, [2, 3]), (var_r, [4]), (var_x, [4])]\<rparr>"

text \<open>A loop: \<^verbatim>\<open>x = 0\<close> in the entry block, at depth 0; the loop header 2, at depth 1,
  reads \<^verbatim>\<open>x\<close>, branches back to itself and leaves to the dead block.\<close>

definition loop_cfg :: CFG where
  "loop_cfg = mkCFG
     [mkBlock 0 [assign var_x (IntLit 0)] noVariable 2 2 [] 0,
      mkBlock 1 [] noVariable 1 1 [2] 0,
      mkBlock 2 [assign var_c (Send var_x 20 [])] var_c 2 1 [0, 2] 1]"

definition loop_RnW :: ReadsAndWrites where
  "loop_RnW = \<lparr>reads = [(var_x, [2]), (var_c, [2])], writes = [(var_x, [0]), (var_c, [2])]\<rparr>"

text \<open>A loop entered from block 2: the entry block 0 jumps to block 2, at depth 0, which
  jumps to the loop header 3, at depth 1; the header branches to the body 4 and to the dead
  block, the body jumps back to the header. The back-edges of the header list the
  shallower block first.\<close>

definition preheader_first_cfg :: CFG where
  "preheader_first_cfg = mkCFG
     [mkBlock 0 [] noVariable 2 2 [] 0,
      mkBlock 1 [] noVariable 1 1 [3] 0,
      mkBlock 2 [] noVariable 3 3 [0] 0,
      mkBlock 3 [] var_c 4 1 [2, 4] 1,
      mkBlock 4 [] noVariable 3 3 [3] 1]"

text \<open>Two blocks at depth 1 entered from the entry block: block 0 branches to the blocks 2
  and 3, block 2 branches to block 3 and to the dead block, block 3 jumps to the dead
  block. Every list of back-edges is sorted by id and has the shallower block first.\<close>

definition sibling_cfg :: CFG where
  "sibling_cfg = mkCFG
     [mkBlock 0 [] var_c 2 3 [] 0,
      mkBlock 1 [] noVariable 1 1 [2, 3] 0,
      mkBlock 2 [] var_a 3 1 [0] 1,
      mkBlock 3 [] noVariable 1 1 [0, 2] 1]"

text \<open>The reads and writes of \<open>branch_cfg\<close> once simplify has merged block 2 into the entry
  block.\<close>

definition branch_RnW :: ReadsAndWrites where
  "branch_RnW =
     \<lparr>reads = [(var_x, [0]), (var_c, [0])],
      writes = [(var_x, [0]), (var_c, [0]), (var_a, [3, 4])]\<rparr>"

lemmas example_defs =
  mkCFG_def mkBlock_def noVariable_def assign_def var_x_def var_c_def var_a_def plain_ctx_def

lemmas simplify_defs =
  simplify_block_def Let_def checked_def sanityCheck_def parents_aware_def backedges_set_def
  remove_unreachable_def canonicalize_def squash_def skip_empty_def shortcut_then_def
  shortcut_else_def reparent_def upd_backEdges_def push_back_def moved_from_def continued_def

section \<open>Which blocks simplify rewrites\<close>






section \<open>Back-edge consistency across the rules\<close>

text \<open>
  Claim C4: every rule application keeps the two conditions \<^verbatim>\<open>sanityCheck\<close> enforces.
  On \<open>header_cfg\<close> the conditions hold; the first iteration of simplify takes the entry
  block 0, whose two exits lead to the block header 2. Neither squashing rule applies
  (block 2 has two predecessors and its condition is \<^verbatim>\<open>blockCall\<close>), so the then-shortcut
  R4 retargets the then-exit to block 3 and erases block 0 from the back-edges of block 2,
  while the else-exit of block 0 still leads to block 2. The check that follows (line 81)
  fails: a debug build stops with \<^verbatim>\<open>backedge unset for elseb\<close>.
\<close>

theorem shortcut_then_breaks_backedges:
  "sanityCheck header_cfg \<and>
   (case simplify_block False 7 header_cfg 0 of
      Inl e \<Rightarrow> False
    | Inr (fired, cfg') \<Rightarrow>
        fired = [R4] \<and> \<not> sanityCheck cfg' \<and>
        elseb (bexit (heap cfg' 0)) = 2 \<and> backEdges (heap cfg' 2) = [4]) \<and>
   simplify_block True 7 header_cfg 0 = Inl EnforceFailed"
  by (simp add: header_cfg_def example_defs simplify_defs)

section \<open>Termination of simplify\<close>

lemma selfloop_sane: "sanityCheck selfloop_cfg"
  by (simp add: selfloop_cfg_def example_defs simplify_defs)

lemma selfloop_step: "simplify_block debug_mode 7 selfloop_cfg 0 = Inr ([R3b], selfloop_cfg)"
  apply (simp add: selfloop_cfg_def example_defs simplify_defs)
  apply (auto simp: fun_eq_iff)
  done

lemma selfloop_pass: "simplify_pass n debug_mode 7 selfloop_cfg 0 changed = None"
proof (induction n arbitrary: changed)
  case 0
  show ?case by simp
next
  case (Suc n)
  have len: "\<not> length (basicBlocks selfloop_cfg) \<le> 0"
    by (simp add: selfloop_cfg_def example_defs)
  show ?case using Suc len by (simp add: selfloop_step continued_def)
qed

text \<open>
  Claim C5: simplify terminates on every structurally valid graph. \<open>selfloop_cfg\<close> passes
  \<^verbatim>\<open>sanityCheck\<close>, and on it the first iteration of the \<^verbatim>\<open>for\<close> loop applies R3b to the
  entry block: block 0 takes over the exit of block 2, which leads to block 2 again; block
  0 is erased from the back-edges of block 2 and pushed back. The graph is what it was, the
  iteration ends in \<^verbatim>\<open>continue\<close> and the iterator has not moved: the loop never ends,
  whatever the fuel.
\<close>

theorem simplify_diverges:
  "sanityCheck selfloop_cfg \<and> (\<forall>n debug_mode. simplify n debug_mode 7 selfloop_cfg = None)"
proof (intro conjI allI)
  show "sanityCheck selfloop_cfg" by (rule selfloop_sane)
next
  fix n debug_mode
  have "simplify_loop n debug_mode 7 selfloop_cfg = None"
    by (cases n) (simp_all add: selfloop_pass)
  then show "simplify n debug_mode 7 selfloop_cfg = None"
    by (simp add: simplify_def selfloop_sane)
qed

section \<open>dealias: frame and idempotence\<close>

lemmas dealias_defs =
  dealias_def dealias_block_def dealias_seed_def at_def meet_def invalidate_def
  dealias_binding_def dealias_ident_def dealias_operands_def record_alias_def maybeDealias_def
  exists_var_def temp_ctx_def tmp1_def tmp2_def tmp3_def copy_cfg_def

lemma copy_run: "dealias temp_ctx copy_cfg = Inr (projr (dealias temp_ctx copy_cfg))"
  by (simp add: example_defs dealias_defs)

lemma copy_result:
  "exprs (heap (projr (dealias temp_ctx copy_cfg)) 0) =
     [assign tmp1 (Ident var_x), assign tmp2 (Ident var_x), assign tmp3 (Ident var_x),
      assign var_c (Send var_x 20 [var_x, var_x])] \<and>
   cond (bexit (heap (projr (dealias temp_ctx copy_cfg)) 0)) = var_x \<and>
   exprs (heap (projr (dealias temp_ctx copy_cfg)) 2) = [assign var_a (Return var_x)]"
  by (simp add: example_defs dealias_defs)

lemma kept_refl: "kept ctx w w" by (simp add: kept_def)

lemma kept_trans: "kept ctx a b \<Longrightarrow> kept ctx b c \<Longrightarrow> kept ctx a c"
  by (auto simp: kept_def)

lemma kept_maybeDealias: "kept ctx w (maybeDealias ctx w m)"
  by (simp add: kept_def maybeDealias_def)

lemma list_all2_kept_refl: "list_all2 (kept ctx) as as"
  by (simp add: list_all2_refl kept_refl)

lemma list_all2_kept_trans:
  "list_all2 (kept ctx) as bs \<Longrightarrow> list_all2 (kept ctx) bs cs \<Longrightarrow> list_all2 (kept ctx) as cs"
  using list_all2_trans[of "kept ctx" "kept ctx" "kept ctx" as bs cs] kept_trans by blast

lemma same_but_operands_refl: "same_but_operands ctx v v"
  by (cases "(ctx, v, v)" rule: same_but_operands.cases)
     (simp_all add: kept_refl list_all2_kept_refl)

lemma same_but_operands_trans:
  assumes "same_but_operands ctx a b" and "same_but_operands ctx b c"
  shows "same_but_operands ctx a c"
proof (cases "(ctx, a, b)" rule: same_but_operands.cases)
  case (1 ctx' w v')
  then show ?thesis using assms
    by (auto split: option.splits Instruction.splits intro: kept_trans)
next
  case (2 ctx' r f as v')
  then show ?thesis using assms
    by (auto split: option.splits Instruction.splits intro: kept_trans list_all2_kept_trans)
next
  case (3 ctx' w v')
  then show ?thesis using assms
    by (auto split: option.splits Instruction.splits intro: kept_trans)
qed (use assms in auto)

lemma binding_frame_refl: "binding_frame ctx b b"
  by (simp add: binding_frame_def same_but_operands_refl)

lemma binding_frame_trans:
  "binding_frame ctx a b \<Longrightarrow> binding_frame ctx b c \<Longrightarrow> binding_frame ctx a c"
  by (auto simp: binding_frame_def intro: same_but_operands_trans)

lemma block_frame_refl: "block_frame ctx b b"
  by (simp add: block_frame_def kept_refl list_all2_refl binding_frame_refl)

lemma block_frame_trans:
  assumes "block_frame ctx a b" and "block_frame ctx b c"
  shows "block_frame ctx a c"
proof -
  have "list_all2 (binding_frame ctx) (exprs a) (exprs c)"
    using assms list_all2_trans[of "binding_frame ctx" "binding_frame ctx" "binding_frame ctx"
        "exprs a" "exprs b" "exprs c"] binding_frame_trans
    unfolding block_frame_def by blast
  moreover have "kept ctx (cond (bexit a)) (cond (bexit c))"
    using assms kept_trans unfolding block_frame_def by blast
  ultimately show ?thesis using assms unfolding block_frame_def by simp
qed

lemma dealias_ident_frame: "same_but_operands ctx v (dealias_ident ctx m v)"
  by (cases "(ctx, v, v)" rule: same_but_operands.cases)
     (simp_all add: dealias_ident_def kept_maybeDealias kept_refl list_all2_kept_refl)

lemma dealias_operands_frame: "same_but_operands ctx v (dealias_operands ctx m v)"
  by (cases "(ctx, v, v)" rule: same_but_operands.cases)
     (simp_all add: dealias_operands_def kept_maybeDealias list_all2_conv_all_nth)

lemma dealias_binding_frame:
  "dealias_binding ctx b m = (b', m') \<Longrightarrow> binding_frame ctx b b'"
  using same_but_operands_trans[OF dealias_ident_frame dealias_operands_frame]
  by (auto simp: dealias_binding_def Let_def binding_frame_def)

lemma dealias_exprs_frame:
  "dealias_exprs ctx bs m = (bs', m') \<Longrightarrow> list_all2 (binding_frame ctx) bs bs'"
proof (induction bs arbitrary: m bs' m')
  case Nil
  then show ?case by simp
next
  case (Cons b bs)
  then show ?case
    by (auto split: prod.splits dest: dealias_binding_frame)
qed

lemma dealias_block_frame:
  assumes "dealias_block ctx h bb oa = Inr (h', oa')"
  shows "block_frame ctx (h p) (h' p)"
proof (cases "p = bb")
  case False
  then show ?thesis using assms
    by (auto simp: dealias_block_def block_frame_refl split: sum.splits prod.splits)
next
  case True
  then show ?thesis using assms
    by (auto simp: dealias_block_def block_frame_def kept_refl kept_maybeDealias
        split: sum.splits prod.splits dest: dealias_exprs_frame)
qed

lemma dealias_blocks_frame:
  "dealias_blocks ctx dead bbs h oa = Inr (h', oa') \<Longrightarrow> block_frame ctx (h p) (h' p)"
proof (induction bbs arbitrary: h oa)
  case Nil
  then show ?case by (simp add: block_frame_refl)
next
  case (Cons bb bbs)
  show ?case
  proof (cases "bb = dead")
    case True
    then show ?thesis using Cons by simp
  next
    case False
    then obtain h1 oa1 where 1: "dealias_block ctx h bb oa = Inr (h1, oa1)"
      and 2: "dealias_blocks ctx dead bbs h1 oa1 = Inr (h', oa')"
      using Cons.prems by (auto split: sum.splits)
    show ?thesis
      using block_frame_trans[OF dealias_block_frame[OF 1] Cons.IH[OF 2]] .
  qed
qed

text \<open>
  Claim C10: dealias changes only variable operands. A run that returns leaves the list of
  blocks, the entry and dead block, both orderings and the loop tables as they were, and
  every block keeps its id, flags, back-edges, loop depth, arguments and the targets of its
  exit; its bindings are the same in number and order, bind the same variables and hold
  instructions of the same variant. What differs is at most \<^verbatim>\<open>Ident.what\<close>,
  \<^verbatim>\<open>Send.recv\<close>, elements of \<^verbatim>\<open>Send.args\<close>, \<^verbatim>\<open>Return.what\<close> and the condition of the
  exit, and only where the operand was a synthetic temporary.
\<close>

theorem dealias_frame:
  assumes "dealias ctx cfg = Inr cfg'"
  shows "basicBlocks cfg' = basicBlocks cfg \<and> entry cfg' = entry cfg \<and>
         deadBlock cfg' = deadBlock cfg \<and>
         forwardsTopoSort cfg' = forwardsTopoSort cfg \<and>
         backwardsTopoSort cfg' = backwardsTopoSort cfg \<and>
         minLoops cfg' = minLoops cfg \<and> maxLoopWrite cfg' = maxLoopWrite cfg \<and>
         (\<forall>p. block_frame ctx (heap cfg p) (heap cfg' p))"
  using assms dealias_blocks_frame
  by (auto simp: dealias_def split: sum.splits)

theorem dealias_frame_witness:
  "basicBlocks (projr (dealias temp_ctx copy_cfg)) = basicBlocks copy_cfg \<and>
   backwardsTopoSort (projr (dealias temp_ctx copy_cfg)) = backwardsTopoSort copy_cfg \<and>
   (\<forall>p. block_frame temp_ctx (heap copy_cfg p) (heap (projr (dealias temp_ctx copy_cfg)) p)) \<and>
   exprs (heap copy_cfg 2) = [assign var_a (Return tmp2)] \<and>
   exprs (heap (projr (dealias temp_ctx copy_cfg)) 2) = [assign var_a (Return var_x)]"
  using dealias_frame[OF copy_run] copy_result
  by (simp add: copy_cfg_def example_defs)

lemma no_chain_empty: "no_chain ctx Map.empty"
  by (simp add: no_chain_def)

lemma no_chain_submap:
  assumes "no_chain ctx m" and "submap m' m"
  shows "no_chain ctx m'"
  unfolding no_chain_def
proof (intro allI impI)
  fix k v
  assume kv: "m' k = Some v"
  then have "m k = Some v" using assms(2) by (simp add: submap_def)
  then have fx: "maybeDealias ctx v m = v" using assms(1) by (simp add: no_chain_def)
  show "maybeDealias ctx v m' = v"
  proof (cases "m' v")
    case None
    then show ?thesis by (simp add: maybeDealias_def)
  next
    case (Some z)
    then have "m v = Some z" using assms(2) by (simp add: submap_def)
    then show ?thesis using fx Some by (simp add: maybeDealias_def split: if_splits)
  qed
qed

lemma submap_meet: "submap (meet m other) m"
  by (auto simp: submap_def meet_def split: option.splits if_splits)

lemma submap_invalidate: "submap (invalidate b m) m"
  by (auto simp: submap_def invalidate_def split: option.splits if_splits)

lemma invalidate_value: "invalidate b m k = Some v \<Longrightarrow> v \<noteq> b"
  by (auto simp: invalidate_def split: option.splits if_splits)

lemma maybeDealias_idem:
  "no_chain ctx m \<Longrightarrow> maybeDealias ctx (maybeDealias ctx w m) m = maybeDealias ctx w m"
proof (cases "isSyntheticTemporary ctx w \<and> m w \<noteq> None")
  case False
  then show ?thesis by (auto simp: maybeDealias_def)
next
  case True
  then obtain a where a: "m w = Some a" by blast
  assume "no_chain ctx m"
  then have "maybeDealias ctx a m = a" using a by (simp add: no_chain_def)
  moreover have "maybeDealias ctx w m = a" using True a by (simp add: maybeDealias_def)
  ultimately show ?thesis by simp
qed

text \<open>The operand an Ident ends with is stable under the map before the invalidation.\<close>

lemma ident_stable:
  assumes "no_chain ctx m"
  shows "maybeDealias ctx (maybeDealias ctx (maybeDealias ctx w m) (invalidate b m)) m =
         maybeDealias ctx (maybeDealias ctx w m) (invalidate b m)"
proof -
  let ?u = "maybeDealias ctx w m"
  let ?v = "maybeDealias ctx ?u (invalidate b m)"
  have u: "maybeDealias ctx ?u m = ?u" using assms by (rule maybeDealias_idem)
  show ?thesis
  proof (cases "?v = ?u")
    case True
    then show ?thesis using u by simp
  next
    case False
    then obtain z where "invalidate b m ?u = Some z" and "?v = z"
      by (auto simp: maybeDealias_def[of ctx ?u] split: if_splits option.splits)
    then have "m ?u = Some ?v" using submap_invalidate[of b m] by (simp add: submap_def)
    then show ?thesis using assms by (simp add: no_chain_def)
  qed
qed

lemma no_chain_record:
  assumes nc: "no_chain ctx m1"
    and nb: "\<And>k v. m1 k = Some v \<Longrightarrow> v \<noteq> b"
    and st: "maybeDealias ctx v m1 = v"
  shows "no_chain ctx (m1(b \<mapsto> v))"
  unfolding no_chain_def
proof (intro allI impI)
  fix k z
  assume kz: "(m1(b \<mapsto> v)) k = Some z"
  show "maybeDealias ctx z (m1(b \<mapsto> v)) = z"
  proof (cases "k = b")
    case True
    then have "z = v" using kz by simp
    then show ?thesis using st by (auto simp: maybeDealias_def)
  next
    case False
    then have 1: "m1 k = Some z" using kz by simp
    then have "z \<noteq> b" using nb by blast
    moreover have "maybeDealias ctx z m1 = z" using nc 1 by (simp add: no_chain_def)
    ultimately show ?thesis by (auto simp: maybeDealias_def split: if_splits)
  qed
qed

lemma dealias_binding_idem:
  assumes nc: "no_chain ctx m" and run: "dealias_binding ctx b m = (b', m')"
  shows "dealias_binding ctx b' m = (b', m') \<and> no_chain ctx m'"
proof -
  let ?m1 = "invalidate (bind b) m"
  have nc1: "no_chain ctx ?m1" using nc submap_invalidate by (rule no_chain_submap)
  have idem1: "\<And>w. maybeDealias ctx (maybeDealias ctx w ?m1) ?m1 = maybeDealias ctx w ?m1"
    using nc1 by (rule maybeDealias_idem)
  have b': "b' = b\<lparr>bvalue := dealias_operands ctx ?m1 (dealias_ident ctx m (bvalue b))\<rparr>"
    and m': "m' = record_alias (bind b) (bvalue b') ?m1"
    using run by (auto simp: dealias_binding_def Let_def)
  have nb: "\<And>k v. ?m1 k = Some v \<Longrightarrow> v \<noteq> bind b" by (rule invalidate_value)
  show ?thesis
  proof (cases "bvalue b")
    case None
    then show ?thesis using b' m' nc1
      by (simp add: dealias_binding_def Let_def dealias_ident_def dealias_operands_def
          record_alias_def)
  next
    case (Some i)
    show ?thesis
    proof (cases i)
      case (Ident w)
      let ?v = "maybeDealias ctx (maybeDealias ctx w m) ?m1"
      have v: "bvalue b' = Some (Ident ?v)"
        using b' Some Ident by (simp add: dealias_ident_def dealias_operands_def)
      have s1: "maybeDealias ctx ?v m = ?v" using nc by (rule ident_stable)
      have s2: "maybeDealias ctx ?v ?m1 = ?v" by (rule idem1)
      have "no_chain ctx (?m1(bind b \<mapsto> ?v))" using nc1 nb s2 by (rule no_chain_record)
      then show ?thesis using v b' m' s1 s2
        by (simp add: dealias_binding_def Let_def dealias_ident_def dealias_operands_def
            record_alias_def)
    next
      case (Send r f as)
      then show ?thesis using b' m' nc1 Some idem1
        by (simp add: dealias_binding_def Let_def dealias_ident_def dealias_operands_def
            record_alias_def)
    next
      case (Return w)
      then show ?thesis using b' m' nc1 Some idem1
        by (simp add: dealias_binding_def Let_def dealias_ident_def dealias_operands_def
            record_alias_def)
    qed (use b' m' nc1 Some in \<open>simp_all add: dealias_binding_def Let_def dealias_ident_def
          dealias_operands_def record_alias_def\<close>)
  qed
qed

lemma dealias_exprs_idem:
  "no_chain ctx m \<Longrightarrow> dealias_exprs ctx bs m = (bs', m') \<Longrightarrow>
   dealias_exprs ctx bs' m = (bs', m') \<and> no_chain ctx m'"
proof (induction bs arbitrary: m bs' m')
  case Nil
  then show ?case by auto
next
  case (Cons b bs)
  obtain b1 m1 where 1: "dealias_binding ctx b m = (b1, m1)" by fastforce
  obtain bs2 m2 where 2: "dealias_exprs ctx bs m1 = (bs2, m2)" by fastforce
  have r: "bs' = b1 # bs2" "m' = m2" using Cons.prems(2) 1 2 by auto
  have i1: "dealias_binding ctx b1 m = (b1, m1)" and n1: "no_chain ctx m1"
    using dealias_binding_idem[OF Cons.prems(1) 1] by auto
  have i2: "dealias_exprs ctx bs2 m1 = (bs2, m2)" and n2: "no_chain ctx m2"
    using Cons.IH[OF n1 2] by auto
  show ?case using r i1 i2 n2 by simp
qed

lemma dealias_parents_cong:
  "(\<And>p. bb_id (h2 p) = bb_id (h1 p)) \<Longrightarrow>
   dealias_parents h2 c ps oa = dealias_parents h1 c ps oa"
  by (induction ps arbitrary: oa) (simp_all split: sum.splits)

lemma dealias_seed_cong:
  "(\<And>p. bb_id (h2 p) = bb_id (h1 p)) \<Longrightarrow> backEdges (h2 bb) = backEdges (h1 bb) \<Longrightarrow>
   dealias_seed h2 bb oa = dealias_seed h1 bb oa"
  by (auto simp: dealias_seed_def split: sum.splits)

lemma dealias_block_cong:
  assumes ids: "\<And>p. bb_id (h2 p) = bb_id (h1 p)" and same: "h2 bb = h1 bb"
    and run: "dealias_block ctx h1 bb oa = Inr (h1', oa')"
  shows "dealias_block ctx h2 bb oa = Inr (h2(bb := h1' bb), oa')"
proof -
  have be: "backEdges (h2 bb) = backEdges (h1 bb)" using same by simp
  show ?thesis
    using run
    unfolding dealias_block_def dealias_seed_cong[of h2 h1, OF ids be]
      dealias_parents_cong[of h2 h1, OF ids] same
    by (auto split: sum.splits prod.splits)
qed

lemma list_all_update:
  "list_all P xs \<Longrightarrow> P x \<Longrightarrow> list_all P (xs[i := x])"
  using set_update_subset_insert[of xs i x] by (auto simp: list_all_iff)

lemma dealias_seed_nc:
  "list_all (no_chain ctx) oa \<Longrightarrow> dealias_seed h bb oa = Inr oa1 \<Longrightarrow>
   list_all (no_chain ctx) oa1"
proof -
  assume nc: "list_all (no_chain ctx) oa" and run: "dealias_seed h bb oa = Inr oa1"
  show ?thesis
  proof (cases "backEdges (h bb) = []")
    case True
    then show ?thesis using nc run by (auto simp: dealias_seed_def split: if_splits)
  next
    case False
    let ?j = "bb_id (h (hd (backEdges (h bb))))"
    have j: "?j < length oa" and oa1: "oa1 = oa[bb_id (h bb) := oa ! ?j]"
      using run False by (auto simp: dealias_seed_def at_def split: if_splits)
    have "no_chain ctx (oa ! ?j)" using nc j by (simp add: list_all_length)
    then show ?thesis unfolding oa1 using nc by (simp add: list_all_update)
  qed
qed

lemma dealias_parents_nc:
  "list_all (no_chain ctx) oa \<Longrightarrow> c < length oa \<Longrightarrow> dealias_parents h c ps oa = Inr oa2 \<Longrightarrow>
   list_all (no_chain ctx) oa2"
proof (induction ps arbitrary: oa)
  case Nil
  then show ?case by simp
next
  case (Cons parent ps)
  from Cons.prems(3) obtain other where
    2: "dealias_parents h c ps (oa[c := meet (oa ! c) other]) = Inr oa2"
    by (auto split: sum.splits)
  have "no_chain ctx (oa ! c)" using Cons.prems(1,2) by (simp add: list_all_length)
  then have "no_chain ctx (meet (oa ! c) other)" using submap_meet by (rule no_chain_submap)
  then have "list_all (no_chain ctx) (oa[c := meet (oa ! c) other])"
    using Cons.prems(1) by (simp add: list_all_update)
  then show ?case using Cons.IH[OF _ _ 2] Cons.prems(2) by simp
qed

lemma dealias_seed_length:
  "dealias_seed h bb oa = Inr oa1 \<Longrightarrow> length oa1 = length oa \<and> bb_id (h bb) < length oa"
  by (auto simp: dealias_seed_def split: if_splits sum.splits)

lemma dealias_parents_length:
  "dealias_parents h c ps oa = Inr oa2 \<Longrightarrow> length oa2 = length oa"
  by (induction ps arbitrary: oa) (auto split: sum.splits)

lemma dealias_block_idem:
  assumes nc: "list_all (no_chain ctx) oa"
    and run: "dealias_block ctx h bb oa = Inr (h', oa')"
  shows "dealias_block ctx h' bb oa = Inr (h', oa') \<and> list_all (no_chain ctx) oa'"
proof -
  let ?c = "bb_id (h bb)"
  from run obtain oa1 oa2 es cur where
    1: "dealias_seed h bb oa = Inr oa1"
    and 2: "dealias_parents h ?c (backEdges (h bb)) oa1 = Inr oa2"
    and 3: "dealias_exprs ctx (exprs (h bb)) (oa2 ! ?c) = (es, cur)"
    and h': "h' = h(bb := (h bb)\<lparr>exprs := es,
                bexit := (if exists_var (cond (bexit (h bb)))
                          then (bexit (h bb))\<lparr>cond := maybeDealias ctx (cond (bexit (h bb))) cur\<rparr>
                          else bexit (h bb))\<rparr>)"
    and oa': "oa' = oa2[?c := cur]"
    by (auto simp: dealias_block_def split: sum.splits prod.splits)
  have n1: "list_all (no_chain ctx) oa1" using nc 1 by (rule dealias_seed_nc)
  have c1: "?c < length oa1" using dealias_seed_length[OF 1] by simp
  have n2: "list_all (no_chain ctx) oa2" using n1 c1 2 by (rule dealias_parents_nc)
  have c2: "?c < length oa2" using dealias_parents_length[OF 2] c1 by simp
  have nslot: "no_chain ctx (oa2 ! ?c)" using n2 c2 by (simp add: list_all_length)
  have 4: "dealias_exprs ctx es (oa2 ! ?c) = (es, cur)" and ncur: "no_chain ctx cur"
    using dealias_exprs_idem[OF nslot 3] by auto
  have ids: "\<And>p. bb_id (h' p) = bb_id (h p)" by (simp add: h')
  have be: "backEdges (h' bb) = backEdges (h bb)" by (simp add: h')
  have s1: "dealias_seed h' bb oa = Inr oa1"
    using 1 dealias_seed_cong[of h' h bb oa, OF ids be] by simp
  have s2: "dealias_parents h' (bb_id (h' bb)) (backEdges (h' bb)) oa1 = Inr oa2"
    using 2 dealias_parents_cong[of h' h, OF ids] by (simp add: ids be)
  have s3: "dealias_exprs ctx (exprs (h' bb)) (oa2 ! bb_id (h' bb)) = (es, cur)"
    using 4 by (simp add: h')
  have "dealias_block ctx h' bb oa = Inr (h', oa')"
    using maybeDealias_idem[OF ncur, of "cond (bexit (h bb))"]
    apply (simp add: dealias_block_def s1 s2 s3)
    apply (auto simp: h' oa' fun_eq_iff)
    done
  moreover have "list_all (no_chain ctx) oa'"
    unfolding oa' using n2 ncur by (simp add: list_all_update)
  ultimately show ?thesis by simp
qed

lemma dealias_block_only:
  "dealias_block ctx h bb oa = Inr (h', oa') \<Longrightarrow> p \<noteq> bb \<Longrightarrow> h' p = h p"
  by (auto simp: dealias_block_def split: sum.splits prod.splits)

lemma dealias_blocks_only:
  "dealias_blocks ctx dead bbs h oa = Inr (h', oa') \<Longrightarrow> p \<notin> set bbs \<Longrightarrow> h' p = h p"
proof (induction bbs arbitrary: h oa)
  case Nil
  then show ?case by simp
next
  case (Cons bb bbs)
  then show ?case
    by (auto split: if_splits sum.splits dest: dealias_block_only)
qed

lemma dealias_blocks_idem:
  "distinct bbs \<Longrightarrow> list_all (no_chain ctx) oa \<Longrightarrow>
   dealias_blocks ctx dead bbs h oa = Inr (h', oa') \<Longrightarrow>
   dealias_blocks ctx dead bbs h' oa = Inr (h', oa')"
proof (induction bbs arbitrary: h oa)
  case Nil
  then show ?case by simp
next
  case (Cons bb bbs)
  show ?case
  proof (cases "bb = dead")
    case True
    then show ?thesis using Cons by simp
  next
    case False
    then obtain h1 oa1 where 1: "dealias_block ctx h bb oa = Inr (h1, oa1)"
      and 2: "dealias_blocks ctx dead bbs h1 oa1 = Inr (h', oa')"
      using Cons.prems(3) by (auto split: sum.splits)
    have i1: "dealias_block ctx h1 bb oa = Inr (h1, oa1)" and n1: "list_all (no_chain ctx) oa1"
      using dealias_block_idem[OF Cons.prems(2) 1] by auto
    have d: "distinct bbs" and nin: "bb \<notin> set bbs" using Cons.prems(1) by auto
    have i2: "dealias_blocks ctx dead bbs h' oa1 = Inr (h', oa')"
      using Cons.IH[OF d n1 2] .
    have same: "h' bb = h1 bb" using dealias_blocks_only[OF 2 nin] .
    have ids: "\<And>p. bb_id (h' p) = bb_id (h1 p)"
      using dealias_blocks_frame[OF 2] by (simp add: block_frame_def)
    have "dealias_block ctx h' bb oa = Inr (h'(bb := h1 bb), oa1)"
      using dealias_block_cong[of h' h1 bb ctx oa h1 oa1, OF ids same i1] .
    then have "dealias_block ctx h' bb oa = Inr (h', oa1)" using same by (simp add: fun_upd_idem)
    then show ?thesis using False i2 by simp
  qed
qed

text \<open>
  Claim C8: dealias is idempotent. When a run over a graph whose \<^verbatim>\<open>backwardsTopoSort\<close>
  lists no block twice returns, a second run on its result returns that result unchanged.
\<close>

theorem dealias_idempotent:
  assumes "dealias ctx cfg = Inr cfg'" and "distinct (backwardsTopoSort cfg)"
  shows "dealias ctx cfg' = Inr cfg'"
proof -
  let ?oa = "replicate (length (basicBlocks cfg)) (Map.empty :: aliases)"
  from assms(1) obtain h' oa' where
    run: "dealias_blocks ctx (deadBlock cfg) (backwardsTopoSort cfg) (heap cfg) ?oa = Inr (h', oa')"
    and cfg': "cfg' = cfg\<lparr>heap := h'\<rparr>"
    by (auto simp: dealias_def split: sum.splits)
  have nc: "list_all (no_chain ctx) ?oa" by (simp add: list_all_length no_chain_empty)
  have "dealias_blocks ctx (deadBlock cfg) (backwardsTopoSort cfg) h' ?oa = Inr (h', oa')"
    using dealias_blocks_idem[OF assms(2) nc run] .
  then show ?thesis by (simp add: dealias_def cfg')
qed

theorem dealias_idempotent_witness:
  "distinct (backwardsTopoSort copy_cfg) \<and>
   dealias temp_ctx (projr (dealias temp_ctx copy_cfg)) = Inr (projr (dealias temp_ctx copy_cfg)) \<and>
   exprs (heap copy_cfg 0) \<noteq> exprs (heap (projr (dealias temp_ctx copy_cfg)) 0)"
proof -
  have d: "distinct (backwardsTopoSort copy_cfg)"
    by (simp add: copy_cfg_def example_defs)
  have c: "exprs (heap copy_cfg 0) \<noteq> exprs (heap (projr (dealias temp_ctx copy_cfg)) 0)"
    using copy_result by (simp add: copy_cfg_def example_defs tmp1_def tmp2_def tmp3_def)
  show ?thesis using dealias_idempotent[OF copy_run d] d c by simp
qed

section \<open>fillInBlockArguments: the arguments are the intersection of two fixpoints\<close>

lemmas fill_defs =
  fillInBlockArguments_def preprocess_def with_key_def entry_of_def set_entry_def
  grow_block_def successor_ids_def predecessor_ids_def insert_range_def at_def
  diamond_cfg_def diamond_RnW_def var_b_def var_r_def Let_def

lemma diamond_pre:
  "preprocess (heap diamond_cfg) (length (basicBlocks diamond_cfg)) diamond_RnW =
     Inr (\<lparr>reads = [(var_a, [0, 4]), (var_c, []), (var_b, [4]), (var_r, []), (var_x, [])],
           writes = [(var_a, [0]), (var_c, []), (var_b, [2, 3]), (var_r, []), (var_x, [])]\<rparr>,
          [[var_a], [], [], [], [var_b, var_a]],
          [[var_a], [], [var_b], [var_b], []])"
  by (simp add: fill_defs example_defs)

lemma diamond_run:
  "fillInBlockArguments plain_ctx diamond_RnW diamond_cfg =
     Inr (fst (projr (fillInBlockArguments plain_ctx diamond_RnW diamond_cfg)),
          snd (projr (fillInBlockArguments plain_ctx diamond_RnW diamond_cfg)))"
  by (simp add: fill_defs example_defs grow_loop.simps)

lemma diamond_args:
  "map (\<lambda>p. args (heap (snd (projr (fillInBlockArguments plain_ctx diamond_RnW diamond_cfg))) p))
     [0, 1, 2, 3, 4] =
   [[var_a], [], [var_a, var_b], [var_a, var_b], [var_a, var_b]]"
  by (simp add: fill_defs example_defs grow_loop.simps)

lemma absorb_inv:
  "absorb i js ub = Inr ub' \<Longrightarrow> i < length ub \<Longrightarrow>
   (\<And>k x. k < length ub \<Longrightarrow> x \<in> set (ub ! k) \<Longrightarrow> Q k x) \<Longrightarrow>
   (\<And>j x. j \<in> set js \<Longrightarrow> Q j x \<Longrightarrow> Q i x) \<Longrightarrow>
   k < length ub' \<Longrightarrow> x \<in> set (ub' ! k) \<Longrightarrow> Q k x"
proof (induction js arbitrary: ub)
  case Nil
  then show ?case by simp
next
  case (Cons j js)
  let ?ub1 = "ub[i := insert_range (ub ! j) (ub ! i)]"
  have j: "j < length ub" and r: "absorb i js ?ub1 = Inr ub'"
    using Cons.prems(1) by (auto split: if_splits)
  have i1: "i < length ?ub1" using Cons.prems(2) by simp
  have q1: "\<And>k x. k < length ?ub1 \<Longrightarrow> x \<in> set (?ub1 ! k) \<Longrightarrow> Q k x"
  proof -
    fix k x assume k: "k < length ?ub1" and x: "x \<in> set (?ub1 ! k)"
    show "Q k x"
    proof (cases "k = i")
      case False
      then show ?thesis using k x Cons.prems(3) by simp
    next
      case True
      then have "x \<in> set (ub ! j) \<or> x \<in> set (ub ! i)"
        using x Cons.prems(2) by (simp add: set_insert_range)
      then show ?thesis
      proof
        assume "x \<in> set (ub ! j)"
        then have "Q j x" using Cons.prems(3) j by blast
        then show ?thesis using Cons.prems(4)[of j x] True by simp
      next
        assume "x \<in> set (ub ! i)"
        then show ?thesis using Cons.prems(2,3) True by blast
      qed
    qed
  qed
  have q2: "\<And>j' x. j' \<in> set js \<Longrightarrow> Q j' x \<Longrightarrow> Q i x"
  proof -
    fix j' x assume "j' \<in> set js" and q: "Q j' x"
    then have "j' \<in> set (j # js)" by simp
    then show "Q i x" using q by (rule Cons.prems(4))
  qed
  show ?case using Cons.IH[OF r i1 q1 q2 Cons.prems(5,6)] .
qed

lemma grow_block_inv:
  assumes run: "grow_block base i js ub = Inr (ub', grew)"
    and inv: "\<And>k x. k < length ub \<Longrightarrow> x \<in> set (ub ! k) \<Longrightarrow> Q k x"
    and own: "\<And>x. i < length base \<Longrightarrow> x \<in> set (base ! i) \<Longrightarrow> Q i x"
    and via: "\<And>j x. j \<in> set js \<Longrightarrow> Q j x \<Longrightarrow> Q i x"
    and k: "k < length ub'" and x: "x \<in> set (ub' ! k)"
  shows "Q k x"
proof -
  let ?ub1 = "ub[i := insert_range (base ! i) (ub ! i)]"
  have i: "i < length ub" and ib: "i < length base" and r: "absorb i js ?ub1 = Inr ub'"
    using run by (auto simp: grow_block_def split: if_splits sum.splits)
  have i1: "i < length ?ub1" using i by simp
  have q1: "\<And>k x. k < length ?ub1 \<Longrightarrow> x \<in> set (?ub1 ! k) \<Longrightarrow> Q k x"
  proof -
    fix k x assume k: "k < length ?ub1" and x: "x \<in> set (?ub1 ! k)"
    show "Q k x"
    proof (cases "k = i")
      case False
      then show ?thesis using k x inv by simp
    next
      case True
      then have "x \<in> set (base ! i) \<or> x \<in> set (ub ! i)"
        using x i by (simp add: set_insert_range)
      then show ?thesis using own inv i ib True by blast
    qed
  qed
  show ?thesis using absorb_inv[of i js ?ub1 ub' Q k x, OF r i1 q1 via k x] .
qed


lemma grow_pass_sound:
  "grow_pass nbrs idf base bbs ub ch = Inr (ub', ch') \<Longrightarrow> set bbs \<subseteq> set ts \<Longrightarrow>
   sound nbrs idf base ts ub \<Longrightarrow> sound nbrs idf base ts ub'"
proof (induction bbs arbitrary: ub ch)
  case Nil
  then show ?case by simp
next
  case (Cons bb bbs)
  from Cons.prems(1) obtain ub1 grew where
    1: "grow_block base (idf bb) (nbrs bb) ub = Inr (ub1, grew)"
    and 2: "grow_pass nbrs idf base bbs ub1 (ch \<or> grew) = Inr (ub', ch')"
    by (auto split: sum.splits)
  have bb: "bb \<in> set ts" using Cons.prems(2) by simp
  have "sound nbrs idf base ts ub1"
    unfolding sound_def
  proof (intro allI impI ballI)
    fix k x assume k: "k < length ub1" and x: "x \<in> set (ub1 ! k)"
    show "flows nbrs idf base ts k x"
    proof (rule grow_block_inv[OF 1 _ _ _ k x])
      show "\<And>k x. k < length ub \<Longrightarrow> x \<in> set (ub ! k) \<Longrightarrow> flows nbrs idf base ts k x"
        using Cons.prems(3) by (simp add: sound_def)
      show "\<And>x. idf bb < length base \<Longrightarrow> x \<in> set (base ! idf bb) \<Longrightarrow>
              flows nbrs idf base ts (idf bb) x"
        using bb by (rule flows.own)
      show "\<And>j x. j \<in> set (nbrs bb) \<Longrightarrow> flows nbrs idf base ts j x \<Longrightarrow>
              flows nbrs idf base ts (idf bb) x"
        using bb by (rule flows.via)
    qed
  qed
  then show ?case using Cons.IH[OF 2] Cons.prems(2) by simp
qed

lemma grow_pass_stable:
  "grow_pass nbrs idf base bbs ub ch = Inr (ub', False) \<Longrightarrow>
   ub' = ub \<and> \<not> ch \<and> closed nbrs idf base bbs ub"
proof (induction bbs arbitrary: ub ch)
  case Nil
  then show ?case by (simp add: closed_def)
next
  case (Cons bb bbs)
  from Cons.prems(1) obtain ub1 grew where
    1: "grow_block base (idf bb) (nbrs bb) ub = Inr (ub1, grew)"
    and 2: "grow_pass nbrs idf base bbs ub1 (ch \<or> grew) = Inr (ub', False)"
    by (auto split: sum.splits)
  have e: "ub' = ub1" and ng: "\<not> (ch \<or> grew)" and c: "closed nbrs idf base bbs ub1"
    using Cons.IH[OF 2] by auto
  note F = grow_block_facts[OF 1]
  have same: "ub1 = ub" using F ng by blast
  have i: "idf bb < length ub"
    and bs: "set (base ! idf bb) \<subseteq> set (ub1 ! idf bb)"
    and nb: "\<forall>j\<in>set (nbrs bb). j < length ub \<and> set (ub ! j) \<subseteq> set (ub1 ! idf bb)"
    using F by blast+
  have "closed nbrs idf base (bb # bbs) ub"
    using c i bs nb unfolding closed_def same by simp
  then show ?case using e same ng by simp
qed

lemma closed_complete:
  assumes "closed nbrs idf base ts ub" and "flows nbrs idf base ts i x"
  shows "i < length ub \<and> x \<in> set (ub ! i)"
  using assms(2)
proof (induction rule: flows.induct)
  case (own bb x)
  then show ?case using assms(1) by (auto simp: closed_def)
next
  case (via bb j x)
  then show ?case using assms(1) unfolding closed_def by blast
qed

lemma grow_loop_fixpoint:
  "grow_loop nbrs idf base ts ub = Inr ubf \<Longrightarrow> sound nbrs idf base ts ub \<Longrightarrow>
   length ubf = length ub \<and> sound nbrs idf base ts ubf \<and> closed nbrs idf base ts ubf"
proof (induction nbrs idf base ts ub rule: grow_loop.induct)
  case (1 nbrs idf base ts ub)
  from "1.prems"(1) obtain ub' changed where
    p: "grow_pass nbrs idf base ts ub False = Inr (ub', changed)"
    by (subst (asm) grow_loop.simps) (auto split: sum.splits)
  have s': "sound nbrs idf base ts ub'"
    using grow_pass_sound[OF p _ "1.prems"(2)] by simp
  have len: "length ub' = length ub" using grow_pass_grown[OF p] by (simp add: grown_def)
  show ?case
  proof (cases changed)
    case True
    then have r: "grow_loop nbrs idf base ts ub' = Inr ubf"
      using "1.prems"(1) p by (subst (asm) grow_loop.simps) simp
    show ?thesis using "1.IH"[OF p refl True r s'] len by simp
  next
    case False
    then have e: "ubf = ub'" using "1.prems"(1) p by (subst (asm) grow_loop.simps) simp
    have "grow_pass nbrs idf base ts ub False = Inr (ub', False)" using p False by simp
    then have "ub' = ub \<and> closed nbrs idf base ts ub" using grow_pass_stable by blast
    then show ?thesis using e s' by simp
  qed
qed

lemma distinct_insert_range: "distinct dst \<Longrightarrow> distinct (insert_range src dst)"
  unfolding insert_range_def by (induction src arbitrary: dst) auto

lemma absorb_distinct:
  "absorb i js ub = Inr ub' \<Longrightarrow> list_all distinct ub \<Longrightarrow> list_all distinct ub'"
proof (induction js arbitrary: ub)
  case Nil
  then show ?case by simp
next
  case (Cons j js)
  let ?ub1 = "ub[i := insert_range (ub ! j) (ub ! i)]"
  have j: "j < length ub" and r: "absorb i js ?ub1 = Inr ub'"
    using Cons.prems(1) by (auto split: if_splits)
  have "list_all distinct ?ub1"
  proof (cases "i < length ub")
    case True
    then have "distinct (ub ! i)" using Cons.prems(2) by (simp add: list_all_length)
    then show ?thesis using Cons.prems(2) by (simp add: list_all_update distinct_insert_range)
  next
    case False
    then show ?thesis using Cons.prems(2) by (simp add: list_update_beyond)
  qed
  then show ?case using Cons.IH[OF r] by simp
qed

lemma grow_block_distinct:
  assumes "grow_block base i js ub = Inr (ub', grew)" and "list_all distinct ub"
  shows "list_all distinct ub'"
proof -
  let ?ub1 = "ub[i := insert_range (base ! i) (ub ! i)]"
  have i: "i < length ub" and r: "absorb i js ?ub1 = Inr ub'"
    using assms(1) by (auto simp: grow_block_def split: if_splits sum.splits)
  have "distinct (ub ! i)" using assms(2) i by (simp add: list_all_length)
  then have "list_all distinct ?ub1"
    using assms(2) by (simp add: list_all_update distinct_insert_range)
  then show ?thesis using absorb_distinct[OF r] by simp
qed

lemma grow_pass_distinct:
  "grow_pass nbrs idf base bbs ub ch = Inr (ub', ch') \<Longrightarrow> list_all distinct ub \<Longrightarrow>
   list_all distinct ub'"
proof (induction bbs arbitrary: ub ch)
  case Nil
  then show ?case by simp
next
  case (Cons bb bbs)
  from Cons.prems(1) obtain ub1 grew where
    1: "grow_block base (idf bb) (nbrs bb) ub = Inr (ub1, grew)"
    and 2: "grow_pass nbrs idf base bbs ub1 (ch \<or> grew) = Inr (ub', ch')"
    by (auto split: sum.splits)
  show ?case using Cons.IH[OF 2 grow_block_distinct[OF 1 Cons.prems(2)]] .
qed

lemma grow_loop_distinct:
  "grow_loop nbrs idf base ts ub = Inr ubf \<Longrightarrow> list_all distinct ub \<Longrightarrow> list_all distinct ubf"
proof (induction nbrs idf base ts ub rule: grow_loop.induct)
  case (1 nbrs idf base ts ub)
  from "1.prems"(1) obtain ub' changed where
    p: "grow_pass nbrs idf base ts ub False = Inr (ub', changed)"
    by (subst (asm) grow_loop.simps) (auto split: sum.splits)
  have d': "list_all distinct ub'" using grow_pass_distinct[OF p "1.prems"(2)] .
  show ?case
  proof (cases changed)
    case True
    then have r: "grow_loop nbrs idf base ts ub' = Inr ubf"
      using "1.prems"(1) p by (subst (asm) grow_loop.simps) simp
    show ?thesis using "1.IH"[OF p refl True r d'] .
  next
    case False
    then have "ubf = ub'" using "1.prems"(1) p by (subst (asm) grow_loop.simps) simp
    then show ?thesis using d' by simp
  qed
qed

lemma fill_args_other:
  "fill_args u1 u2 its h = Inr h' \<Longrightarrow> p \<notin> set its \<Longrightarrow> h' p = h p"
  by (induction its arbitrary: h) (auto simp: at_def split: if_splits)

lemma fill_args_result:
  "fill_args u1 u2 its h = Inr h' \<Longrightarrow> distinct its \<Longrightarrow> it \<in> set its \<Longrightarrow>
   bb_id (h it) < length u1 \<and> bb_id (h it) < length u2 \<and>
   args (h' it) =
     sort_key name (args (h it) @ filter (\<lambda>el. el \<in> set (u2 ! bb_id (h it))) (u1 ! bb_id (h it)))"
proof (induction its arbitrary: h)
  case Nil
  then show ?case by simp
next
  case (Cons a its)
  let ?h1 = "h(a := (h a)\<lparr>args := sort_key name
      (args (h a) @ filter (\<lambda>el. el \<in> set (u2 ! bb_id (h a))) (u1 ! bb_id (h a)))\<rparr>)"
  have b: "bb_id (h a) < length u1" "bb_id (h a) < length u2"
    and r: "fill_args u1 u2 its ?h1 = Inr h'"
    using Cons.prems(1) by (auto simp: at_def split: if_splits)
  show ?case
  proof (cases "it = a")
    case True
    then have "it \<notin> set its" using Cons.prems(2) by simp
    then have "h' it = ?h1 it" using fill_args_other[OF r] by simp
    then show ?thesis using True b by simp
  next
    case False
    then have "it \<in> set its" using Cons.prems(3) by simp
    then show ?thesis using Cons.IH[OF r] Cons.prems(2) False by simp
  qed
qed


lemma grow_loop_slots:
  assumes "grow_loop nbrs idf base ts (replicate n []) = Inr ubf" and "i < n"
  shows "set (ubf ! i) = {x. flows nbrs idf base ts i x}" and "distinct (ubf ! i)"
proof -
  have s0: "sound nbrs idf base ts (replicate n [])" by (simp add: sound_def)
  have d0: "list_all distinct (replicate n ([] :: varset))" by (simp add: list_all_length)
  have len: "length ubf = n" and s: "sound nbrs idf base ts ubf"
    and c: "closed nbrs idf base ts ubf"
    using grow_loop_fixpoint[OF assms(1) s0] by auto
  show "set (ubf ! i) = {x. flows nbrs idf base ts i x}"
    using s c len assms(2) closed_complete[OF c] by (auto simp: sound_def)
  show "distinct (ubf ! i)"
    using grow_loop_distinct[OF assms(1) d0] len assms(2) by (simp add: list_all_length)
qed

text \<open>
  Claim C6: after fillInBlockArguments, the arguments of every block are exactly the
  intersection of UB1 and UB2 at the block, computed on the preprocessed tables, sorted by
  name id and free of duplicates. Stated for a run that returns, on a graph that owns each
  block once, for a block whose \<open>args\<close> were empty before.
\<close>

theorem block_arguments:
  assumes pre: "preprocess (heap cfg) (length (basicBlocks cfg)) RnW =
                  Inr (RnW1, reads_by_block, writes_by_block)"
    and run: "fillInBlockArguments ctx RnW cfg = Inr (RnW', cfg')"
    and d: "distinct (basicBlocks cfg)"
    and b: "b \<in> set (basicBlocks cfg)"
    and e: "args (heap cfg b) = []"
  shows "set (args (heap cfg' b)) =
           UB1 cfg reads_by_block (bb_id (heap cfg b)) \<inter>
           UB2 cfg writes_by_block (bb_id (heap cfg b)) \<and>
         sorted (map name (args (heap cfg' b))) \<and> distinct (args (heap cfg' b))"
proof -
  let ?h = "heap cfg" and ?n = "length (basicBlocks cfg)"
  let ?idf = "\<lambda>bb. bb_id (heap cfg bb)"
  from run pre obtain u1 u2 h' where
    1: "grow_loop (successor_ids ?h (deadBlock cfg)) ?idf reads_by_block (forwardsTopoSort cfg)
          (replicate ?n []) = Inr u1"
    and 2: "grow_loop (predecessor_ids ?h (deadBlock cfg)) ?idf writes_by_block
          (backwardsTopoSort cfg) (replicate ?n []) = Inr u2"
    and 3: "fill_args u1 u2 (basicBlocks cfg) ?h = Inr h'"
    and cfg': "cfg' = cfg\<lparr>heap := h'\<rparr>"
    by (auto simp: fillInBlockArguments_def Let_def split: sum.splits)
  have l1: "length u1 = ?n"
    using grow_loop_fixpoint[OF 1] by (simp add: sound_def)
  note R = fill_args_result[OF 3 d b]
  have i: "bb_id (?h b) < ?n" using R l1 by simp
  have a: "args (h' b) = sort_key name
      (filter (\<lambda>el. el \<in> set (u2 ! bb_id (?h b))) (u1 ! bb_id (?h b)))"
    using R e by simp
  have s1: "set (u1 ! bb_id (?h b)) = UB1 cfg reads_by_block (bb_id (?h b))"
    and d1: "distinct (u1 ! bb_id (?h b))"
    using grow_loop_slots[OF 1 i] by (simp_all add: UB1_def)
  have s2: "set (u2 ! bb_id (?h b)) = UB2 cfg writes_by_block (bb_id (?h b))"
    using grow_loop_slots[OF 2 i] by (simp_all add: UB2_def)
  show ?thesis
    unfolding cfg' using a s1 s2 d1 by (auto simp: sorted_sort_key)
qed

theorem block_arguments_witness:
  "distinct (basicBlocks diamond_cfg) \<and> 4 \<in> set (basicBlocks diamond_cfg) \<and>
   args (heap diamond_cfg 4) = [] \<and>
   set (args (heap (snd (projr (fillInBlockArguments plain_ctx diamond_RnW diamond_cfg))) 4)) =
     UB1 diamond_cfg [[var_a], [], [], [], [var_b, var_a]] 4 \<inter>
     UB2 diamond_cfg [[var_a], [], [var_b], [var_b], []] 4 \<and>
   args (heap (snd (projr (fillInBlockArguments plain_ctx diamond_RnW diamond_cfg))) 4) =
     [var_a, var_b]"
proof -
  have d: "distinct (basicBlocks diamond_cfg)" and b: "4 \<in> set (basicBlocks diamond_cfg)"
    and e: "args (heap diamond_cfg 4) = []" and i: "bb_id (heap diamond_cfg 4) = 4"
    by (simp_all add: diamond_cfg_def example_defs)
  show ?thesis
    using block_arguments[OF diamond_pre diamond_run d b e] diamond_args d b e i by simp
qed

section \<open>removeDeadAssigns looks at the keys of reads\<close>

lemma map_of_Some_key: "map_of m x = Some y \<Longrightarrow> x \<in> fst ` set m"
  by (metis map_of_eq_None_iff option.distinct(1))

lemma removeDeadAssigns_exprs_filter:
  "removeDeadAssigns_exprs ctx RnW bs = filter (survives ctx RnW) bs"
  by (induction bs)
     (auto simp: survives_def map_of_eq_None_iff split: option.splits dest: map_of_Some_key)

lemma removeDeadAssigns_blocks_exprs:
  "exprs (removeDeadAssigns_blocks ctx RnW bbs h p) =
     (if p \<in> set bbs then filter (survives ctx RnW) (exprs (h p)) else exprs (h p))"
  by (induction bbs arbitrary: h) (auto simp: removeDeadAssigns_exprs_filter)

lemma with_key_keys: "fst ` set (with_key x m) = insert x (fst ` set m)"
  by (auto simp: with_key_def map_of_eq_None_iff split: option.splits dest: map_of_Some_key)

lemma set_entry_keys: "map fst (set_entry x s m) = map fst m"
  by (induction m) (auto simp: set_entry_def)

lemma set_entry_keys_set: "fst ` set (set_entry x s m) = fst ` set m"
  using set_entry_keys[of x s m] by (metis set_map)

lemma prune_reads_keys:
  "prune_reads rs ws = (rs', ws') \<Longrightarrow>
   map fst rs' = map fst rs \<and> fst ` set ws' = fst ` set ws \<union> fst ` set rs"
proof (induction rs arbitrary: ws rs' ws')
  case Nil
  then show ?case by simp
next
  case (Cons a rest)
  obtain x rds where a: "a = (x, rds)" by (cases a)
  from Cons.prems a obtain w0 r1 v where
    p: "prune_reads rest w0 = (r1, ws')" and r: "rs' = (x, v) # r1"
    and k: "fst ` set w0 = insert x (fst ` set ws)"
    by (auto simp: Let_def with_key_keys set_entry_keys_set split: if_splits prod.splits)
  show ?case using Cons.IH[OF p] r k a by auto
qed

lemma prune_writes_keys:
  "prune_writes h ws rs rbb wbb = Inr (ws', rs', rbb', wbb') \<Longrightarrow>
   map fst ws' = map fst ws \<and> fst ` set rs' = fst ` set rs \<union> fst ` set ws"
proof (induction ws arbitrary: rs rbb wbb ws' rs' rbb' wbb')
  case Nil
  then show ?case by simp
next
  case (Cons a ws)
  obtain x wts where a: "a = (x, wts)" by (cases a)
  let ?rs1 = "with_key x rs"
  from Cons.prems a obtain rbb1 wbb1 rest' where
    r: "prune_writes h ws ?rs1 rbb1 wbb1 = Inr (rest', rs', rbb', wbb')"
    and w: "ws' = (x, if entry_of ?rs1 x = [] then [] else wts) # rest'"
    by (auto simp: Let_def split: sum.splits)
  show ?case using Cons.IH[OF r] w a by (auto simp: with_key_keys)
qed

lemma preprocess_keys:
  assumes "preprocess h n RnW = Inr (RnW', rbb, wbb)"
  shows "fst ` set (reads RnW') = fst ` set (reads RnW) \<union> fst ` set (writes RnW)"
proof -
  obtain rs ws where 1: "prune_reads (reads RnW) (writes RnW) = (rs, ws)" by fastforce
  from assms 1 obtain ws' rs' where
    2: "prune_writes h ws rs (replicate n []) (replicate n []) = Inr (ws', rs', rbb, wbb)"
    and R: "RnW' = \<lparr>reads = rs', writes = ws'\<rparr>"
    by (auto simp: preprocess_def split: sum.splits)
  have k1: "map fst rs = map fst (reads RnW)"
    and k2: "fst ` set ws = fst ` set (writes RnW) \<union> fst ` set (reads RnW)"
    using prune_reads_keys[OF 1] by auto
  have "fst ` set rs = fst ` set (reads RnW)" using k1 by (metis set_map)
  then show ?thesis using prune_writes_keys[OF 2] k2 R by auto
qed

text \<open>
  Claim C9: removeDeadAssigns removes a binding only when its variable is absent as a key
  from \<open>reads\<close>; a key mapped to an empty set still keeps the binding. After
  fillInBlockArguments every variable that was a key of \<open>reads\<close> or of \<open>writes\<close> is a key of
  \<open>reads\<close>, so removeDeadAssigns run with that table keeps every binding of such a variable.
\<close>

theorem dead_assign_needs_absent_key:
  assumes "fillInBlockArguments ctx RnW cfg = Inr (RnW', cfg')"
  shows "(\<forall>c R cfg2 p.
            exprs (heap (removeDeadAssigns c R cfg2) p) =
              (if p \<in> set (basicBlocks cfg2) then filter (survives c R) (exprs (heap cfg2 p))
               else exprs (heap cfg2 p))) \<and>
         fst ` set (reads RnW') = fst ` set (reads RnW) \<union> fst ` set (writes RnW) \<and>
         (\<forall>c b. bind b \<in> fst ` set (reads RnW) \<union> fst ` set (writes RnW) \<longrightarrow> survives c RnW' b)"
proof -
  from assms obtain rbb wbb where
    "preprocess (heap cfg) (length (basicBlocks cfg)) RnW = Inr (RnW', rbb, wbb)"
    by (auto simp: fillInBlockArguments_def Let_def split: sum.splits)
  then have k: "fst ` set (reads RnW') = fst ` set (reads RnW) \<union> fst ` set (writes RnW)"
    by (rule preprocess_keys)
  show ?thesis
    using k by (simp add: removeDeadAssigns_def removeDeadAssigns_blocks_exprs survives_def)
qed

lemma diamond_tables:
  "fst (projr (fillInBlockArguments plain_ctx diamond_RnW diamond_cfg)) =
     \<lparr>reads = [(var_a, [0, 4]), (var_c, []), (var_b, [4]), (var_r, []), (var_x, [])],
      writes = [(var_a, [0]), (var_c, []), (var_b, [2, 3]), (var_r, []), (var_x, [])]\<rparr>"
  by (simp add: fill_defs example_defs grow_loop.simps)

theorem dead_assign_needs_absent_key_witness:
  "map_of (reads (fst (projr (fillInBlockArguments plain_ctx diamond_RnW diamond_cfg)))) var_c
     = Some [] \<and>
   survives plain_ctx (fst (projr (fillInBlockArguments plain_ctx diamond_RnW diamond_cfg)))
     (assign var_c (Ident var_a)) \<and>
   exprs (heap (removeDeadAssigns plain_ctx
                  (fst (projr (fillInBlockArguments plain_ctx diamond_RnW diamond_cfg)))
                  diamond_cfg) 0) =
     [assign var_a (IntLit 1), assign var_c (Ident var_a)] \<and>
   exprs (heap (removeDeadAssigns plain_ctx
                  (fst (projr (fillInBlockArguments plain_ctx diamond_RnW diamond_cfg)))
                  diamond_cfg) 4) =
     [assign var_r (IntLit 0), assign var_x (Send var_b 21 [var_a])] \<and>
   exprs (heap (removeDeadAssigns plain_ctx diamond_RnW diamond_cfg) 4) =
     [assign var_x (Send var_b 21 [var_a])]"
proof -
  note T = dead_assign_needs_absent_key[OF diamond_run]
  have k: "bind (assign var_c (Ident var_a)) \<in>
      fst ` set (reads diamond_RnW) \<union> fst ` set (writes diamond_RnW)"
    by (simp add: diamond_RnW_def example_defs)
  have s: "survives plain_ctx
      (fst (projr (fillInBlockArguments plain_ctx diamond_RnW diamond_cfg)))
      (assign var_c (Ident var_a))"
    using T[THEN conjunct2, THEN conjunct2, rule_format, OF k] .
  note e = T[THEN conjunct1, rule_format, of _ _ diamond_cfg]
  show ?thesis
    using s unfolding e diamond_tables
    by (simp add: survives_def diamond_cfg_def diamond_RnW_def var_b_def var_r_def example_defs)
qed

section \<open>computeMinMaxLoops: the minimum is over reads and writes\<close>

lemmas minmax_defs = computeMinMaxLoops_def inserted_def INT_MAX_def loop_cfg_def loop_RnW_def

lemma lower_min_Min:
  "lower_min h bbs m = Min (insert m ((\<lambda>bb. outerLoops (h bb)) ` set bbs))"
proof (induction bbs arbitrary: m)
  case Nil
  show ?case by simp
next
  case (Cons bb bbs)
  let ?S = "(\<lambda>bb. outerLoops (h bb)) ` set bbs"
  have "(if m > outerLoops (h bb) then outerLoops (h bb) else m) = min m (outerLoops (h bb))"
    by (simp add: min_def)
  then have "lower_min h (bb # bbs) m = Min (insert (min m (outerLoops (h bb))) ?S)"
    using Cons[of "min m (outerLoops (h bb))"] by simp
  also have "\<dots> = Min (insert m (insert (outerLoops (h bb)) ?S))"
  proof (cases "?S = {}")
    case True
    then show ?thesis by (simp add: min.commute)
  next
    case False
    then show ?thesis by (simp add: Min_insert min.assoc)
  qed
  finally show ?case by simp
qed

lemma minmax_writes_fst: "fst (minmax_writes h ws (mn, mx)) = minmax_reads h ws mn"
  by (induction ws arbitrary: mn mx) auto

lemma minmax_reads_other:
  "x \<notin> fst ` set rs \<Longrightarrow> minmax_reads h rs mn x = mn x"
  by (induction rs arbitrary: mn) auto

lemma minmax_reads_key:
  "distinct (map fst rs) \<Longrightarrow> map_of rs x = Some wh \<Longrightarrow>
   minmax_reads h rs mn x = Some (lower_min h wh (inserted mn x INT_MAX))"
proof (induction rs arbitrary: mn)
  case Nil
  then show ?case by simp
next
  case (Cons a rs)
  obtain y ys where a: "a = (y, ys)" by (cases a)
  show ?case
  proof (cases "y = x")
    case True
    then have "x \<notin> fst ` set rs" and "ys = wh" using Cons.prems a by auto
    then show ?thesis using a True by (simp add: minmax_reads_other)
  next
    case False
    then have m: "map_of rs x = Some wh" and d: "distinct (map fst rs)"
      using Cons.prems a by auto
    let ?mn = "mn(y \<mapsto> lower_min h ys (inserted mn y INT_MAX))"
    have i: "inserted ?mn x INT_MAX = inserted mn x INT_MAX"
      using False by (simp add: inserted_def)
    have "minmax_reads h (a # rs) mn x = minmax_reads h rs ?mn x" using a by simp
    also have "\<dots> = Some (lower_min h wh (inserted ?mn x INT_MAX))" using d m by (rule Cons.IH)
    finally show ?thesis using i by simp
  qed
qed

text \<open>
  Claim C2, amended: for a variable \<open>x\<close> with a non-empty set of reading blocks and no entry
  in \<open>minLoops\<close> before the call, the final \<open>minLoops[x]\<close> is the minimum of
  \<open>outerLoops\<close> over the blocks that read \<open>x\<close> and the blocks that write \<open>x\<close>: the write
  pass starts from the read-derived minimum and lowers it at every shallower write.
  (The keys of either table differ, and \<open>outerLoops\<close> is a C \<^verbatim>\<open>int\<close>.)
\<close>

theorem minLoops_reads_and_writes:
  assumes dr: "distinct (map fst (reads RnW))" and dw: "distinct (map fst (writes RnW))"
    and fresh: "minLoops cfg x = None"
    and rd: "map_of (reads RnW) x = Some rs" and ne: "rs \<noteq> []"
    and rng: "\<forall>bb\<in>set rs. outerLoops (heap cfg bb) \<le> INT_MAX"
  shows "minLoops (computeMinMaxLoops ctx RnW cfg) x =
           Some (Min ((\<lambda>bb. outerLoops (heap cfg bb)) ` (set rs \<union> set (entry_of (writes RnW) x))))"
proof -
  let ?h = "heap cfg" and ?ol = "\<lambda>bb. outerLoops (heap cfg bb)"
  let ?mn1 = "minmax_reads ?h (reads RnW) (minLoops cfg)"
  have fin: "minLoops (computeMinMaxLoops ctx RnW cfg) = minmax_reads ?h (writes RnW) ?mn1"
    using minmax_writes_fst[of ?h "writes RnW" ?mn1 "maxLoopWrite cfg"]
    by (auto simp: computeMinMaxLoops_def split: prod.splits)
  have "?mn1 x = Some (lower_min ?h rs INT_MAX)"
    using minmax_reads_key[OF dr rd] fresh by (simp add: inserted_def)
  also have "lower_min ?h rs INT_MAX = Min (insert INT_MAX (?ol ` set rs))" by (rule lower_min_Min)
  also have "\<dots> = Min (?ol ` set rs)"
  proof -
    obtain bb where bb: "bb \<in> set rs" using ne by (cases rs) auto
    then have "Min (?ol ` set rs) \<le> ?ol bb" by simp
    moreover have "?ol bb \<le> INT_MAX" using rng bb by blast
    ultimately have "Min (?ol ` set rs) \<le> INT_MAX" by (rule order_trans)
    then have le: "Min (?ol ` set rs) \<le> INT_MAX" .
    have "Min (insert INT_MAX (?ol ` set rs)) = min INT_MAX (Min (?ol ` set rs))"
      using ne by (intro Min_insert) auto
    then show ?thesis using le by (simp only: min_absorb2)
  qed
  finally have r1: "?mn1 x = Some (Min (?ol ` set rs))" .
  show ?thesis
  proof (cases "map_of (writes RnW) x")
    case None
    then have "x \<notin> fst ` set (writes RnW)" by (simp add: map_of_eq_None_iff)
    then show ?thesis using fin r1 None by (simp add: minmax_reads_other entry_of_def)
  next
    case (Some ws)
    have "minmax_reads ?h (writes RnW) ?mn1 x = Some (lower_min ?h ws (Min (?ol ` set rs)))"
      using minmax_reads_key[OF dw Some] r1 by (simp add: inserted_def)
    also have "lower_min ?h ws (Min (?ol ` set rs)) = Min (insert (Min (?ol ` set rs)) (?ol ` set ws))"
      by (rule lower_min_Min)
    also have "\<dots> = Min (?ol ` (set rs \<union> set ws))"
    proof (cases "ws = []")
      case True
      then show ?thesis by simp
    next
      case False
      have "Min (?ol ` set rs \<union> ?ol ` set ws) = min (Min (?ol ` set rs)) (Min (?ol ` set ws))"
        using ne False by (intro Min_Un) auto
      then show ?thesis using False by (simp add: image_Un Min_insert)
    qed
    finally show ?thesis using fin Some by (simp add: entry_of_def)
  qed
qed

theorem minLoops_reads_and_writes_witness:
  "map_of (reads loop_RnW) var_x = Some [2] \<and> entry_of (writes loop_RnW) var_x = [0] \<and>
   minLoops (computeMinMaxLoops plain_ctx loop_RnW loop_cfg) var_x =
     Some (Min ((\<lambda>bb. outerLoops (heap loop_cfg bb)) ` {2, 0})) \<and>
   Min ((\<lambda>bb. outerLoops (heap loop_cfg bb)) ` {2, 0}) = 0"
proof -
  have dr: "distinct (map fst (reads loop_RnW))" and dw: "distinct (map fst (writes loop_RnW))"
    and fresh: "minLoops loop_cfg var_x = None"
    and rd: "map_of (reads loop_RnW) var_x = Some [2]" and ne: "[2::nat] \<noteq> []"
    and rng: "\<forall>bb\<in>set [2]. outerLoops (heap loop_cfg bb) \<le> INT_MAX"
    and wr: "entry_of (writes loop_RnW) var_x = [0]"
    by (simp_all add: minmax_defs entry_of_def example_defs)
  have m: "Min ((\<lambda>bb. outerLoops (heap loop_cfg bb)) ` {2, 0}) = 0"
    by (simp add: loop_cfg_def example_defs)
  show ?thesis
    using minLoops_reads_and_writes[OF dr dw fresh rd ne rng, of plain_ctx] rd wr m
    by (simp add: insert_commute)
qed

text \<open>
  Claim C2, as the spec has it: the final \<open>minLoops[x]\<close> is the minimum over the reading
  blocks, and a write at a shallower depth does not lower it. In \<open>loop_cfg\<close> the variable
  \<^verbatim>\<open>x\<close> is read only in the loop header, at depth 1, and written in the entry block, at
  depth 0; lines 264--266 lower its minimum to 0.
\<close>

theorem write_lowers_minLoops:
  "map_of (reads loop_RnW) var_x = Some [2] \<and>
   Min ((\<lambda>bb. outerLoops (heap loop_cfg bb)) ` set [2]) = 1 \<and>
   minLoops (computeMinMaxLoops plain_ctx loop_RnW loop_cfg) var_x = Some 0"
  by (simp add: minmax_defs example_defs)

section \<open>The order topoSortBwd writes\<close>

lemma advances_refl: "sort_ok s \<Longrightarrow> advances s s []"
  by (simp add: advances_def)

lemma advances_trans:
  assumes "advances s s' a" and "advances s' s'' b"
  shows "advances s s'' (a @ b)"
  using assms unfolding advances_def by auto

lemma put_facts:
  assumes "put bb s = Inr s'" and "sort_ok s"
  shows "sort_ok s' \<and> length (fst (snd s')) = length (fst (snd s)) \<and>
         emitted s' = emitted s @ [bb] \<and> fst s' = fst s"
proof -
  obtain h t nf where s: "s = (h, t, nf)" by (cases s)
  have nf: "nf < length t" and s': "s' = (h, t[nf := bb], nf + 1)"
    using assms(1) s by (auto split: if_splits)
  show ?thesis using nf s s' by (simp add: take_Suc_conv_app_nth)
qed

lemma mark_facts:
  "visited (mark BACKWARD_TOPO_SORT_VISITED bb h) = insert bb (visited h)"
  "backEdges (mark f bb h p) = backEdges (h p)"
  "outerLoops (mark f bb h p) = outerLoops (h p)"
  by (auto simp: visited_def mark_def)

text \<open>What a call that returns normally leaves behind; for a loop also which back-edges
  it went through and why it stopped.\<close>

lemma sort_step:
  "(\<forall>s bb s'. sort_ok s \<longrightarrow> topoSortBwd n s bb = Some (Inr s') \<longrightarrow>
      (\<exists>new. advances s s' new) \<and> bb \<in> visited (fst s')) \<and>
   (\<forall>outer s cur i s' i'. sort_ok s \<longrightarrow> bwd_edges n outer s cur i = Some (Inr (s', i')) \<longrightarrow>
      (\<exists>new. advances s s' new) \<and> i \<le> i' \<and>
      (\<forall>j. i \<le> j \<and> j < i' \<longrightarrow>
           j < length (backEdges (fst s cur)) \<and> backEdges (fst s cur) ! j \<in> visited (fst s') \<and>
           (outer \<longrightarrow> lower (fst s) cur (backEdges (fst s cur) ! j))) \<and>
      (i' < length (backEdges (fst s cur)) \<longrightarrow>
           outer \<and> \<not> lower (fst s) cur (backEdges (fst s cur) ! i')))"
proof (induction n)
  case 0
  show ?case by simp
next
  case (Suc n)
  note IH1 = Suc[THEN conjunct1, rule_format]
  note IH2 = Suc[THEN conjunct2, rule_format]
  have A: "\<And>s bb s'. sort_ok s \<Longrightarrow> topoSortBwd (Suc n) s bb = Some (Inr s') \<Longrightarrow>
      (\<exists>new. advances s s' new) \<and> bb \<in> visited (fst s')"
  proof -
    fix s bb s'
    assume ok: "sort_ok s" and run: "topoSortBwd (Suc n) s bb = Some (Inr s')"
    obtain h t nf where s: "s = (h, t, nf)" by (cases s)
    show "(\<exists>new. advances s s' new) \<and> bb \<in> visited (fst s')"
    proof (cases "BACKWARD_TOPO_SORT_VISITED \<in> flags (h bb)")
      case True
      then have "s' = s" using run s by simp
      then show ?thesis using True ok s advances_refl[OF ok] by (auto simp: visited_def)
    next
      case False
      let ?s0 = "(mark BACKWARD_TOPO_SORT_VISITED bb h, t, nf)"
      have ok0: "sort_ok ?s0" using ok s by simp
      have nv: "bb \<notin> visited h" using False by (simp add: visited_def)
      from run s False obtain s1 i where
        1: "bwd_edges n True ?s0 bb 0 = Some (Inr (s1, i))"
        by (auto split: option.splits sum.splits)
      from IH2[OF ok0 1] obtain a where a: "advances ?s0 s1 a" by blast
      have ok1: "sort_ok s1" using a by (simp add: advances_def)
      show ?thesis
      proof (cases "i > 0")
        case True
        from run s False 1 True obtain s2 s3 i' where
          2: "put bb s1 = Inr s2" and 3: "bwd_edges n False s2 bb i = Some (Inr (s3, i'))"
          and e: "s' = s3"
          by (auto split: option.splits sum.splits)
        note P = put_facts[OF 2 ok1]
        have ok2: "sort_ok s2" using P by simp
        from IH2[OF ok2 3] obtain b where b: "advances s2 s3 b" by blast
        have "advances s s' (a @ [bb] @ b)"
          using a b P nv s e unfolding advances_def by (auto simp: mark_facts)
        moreover have "bb \<in> visited (fst s')"
          using a b P e unfolding advances_def by (auto simp: mark_facts)
        ultimately show ?thesis by blast
      next
        case F: False
        from run s False 1 F obtain s2 i' where
          2: "bwd_edges n False s1 bb i = Some (Inr (s2, i'))" and 3: "put bb s2 = Inr s'"
          by (auto split: option.splits sum.splits)
        from IH2[OF ok1 2] obtain b where b: "advances s1 s2 b" by blast
        have ok2: "sort_ok s2" using b by (simp add: advances_def)
        note P = put_facts[OF 3 ok2]
        have "advances s s' (a @ b @ [bb])"
          using a b P nv s unfolding advances_def by (auto simp: mark_facts)
        moreover have "bb \<in> visited (fst s')"
          using a b P unfolding advances_def by (auto simp: mark_facts)
        ultimately show ?thesis by blast
      qed
    qed
  qed
  have B: "\<And>outer s cur i s' i'. sort_ok s \<Longrightarrow>
      bwd_edges (Suc n) outer s cur i = Some (Inr (s', i')) \<Longrightarrow>
      (\<exists>new. advances s s' new) \<and> i \<le> i' \<and>
      (\<forall>j. i \<le> j \<and> j < i' \<longrightarrow>
           j < length (backEdges (fst s cur)) \<and> backEdges (fst s cur) ! j \<in> visited (fst s') \<and>
           (outer \<longrightarrow> lower (fst s) cur (backEdges (fst s cur) ! j))) \<and>
      (i' < length (backEdges (fst s cur)) \<longrightarrow>
           outer \<and> \<not> lower (fst s) cur (backEdges (fst s cur) ! i'))"
  proof -
    fix outer s cur i s' i'
    assume ok: "sort_ok s" and run: "bwd_edges (Suc n) outer s cur i = Some (Inr (s', i'))"
    obtain h t nf where s: "s = (h, t, nf)" by (cases s)
    let ?be = "backEdges (h cur)"
    let ?go = "i < length ?be \<and> (outer \<longrightarrow> outerLoops (h cur) > outerLoops (h (?be ! i)))"
    show "(\<exists>new. advances s s' new) \<and> i \<le> i' \<and>
      (\<forall>j. i \<le> j \<and> j < i' \<longrightarrow>
           j < length (backEdges (fst s cur)) \<and> backEdges (fst s cur) ! j \<in> visited (fst s') \<and>
           (outer \<longrightarrow> lower (fst s) cur (backEdges (fst s cur) ! j))) \<and>
      (i' < length (backEdges (fst s cur)) \<longrightarrow>
           outer \<and> \<not> lower (fst s) cur (backEdges (fst s cur) ! i'))"
    proof (cases ?go)
      case False
      then have "s' = s" "i' = i" using run s by auto
      then show ?thesis using False s advances_refl[OF ok] by (auto simp: lower_def)
    next
      case True
      from run s True obtain s1 where
        1: "topoSortBwd n s (?be ! i) = Some (Inr s1)"
        and 2: "bwd_edges n outer s1 cur (i + 1) = Some (Inr (s', i'))"
        by (auto split: option.splits sum.splits)
      from IH1[OF ok 1] obtain a where a: "advances s s1 a" and v: "?be ! i \<in> visited (fst s1)"
        by blast
      have ok1: "sort_ok s1" using a by (simp add: advances_def)
      have fr: "\<And>p. backEdges (fst s1 p) = backEdges (h p) \<and> outerLoops (fst s1 p) = outerLoops (h p)"
        using a s by (simp add: advances_def)
      note R = IH2[OF ok1 2]
      from R obtain b where b: "advances s1 s' b" by blast
      have adv: "advances s s' (a @ b)" using a b by (rule advances_trans)
      have mono: "visited (fst s1) \<subseteq> visited (fst s')" using b by (auto simp: advances_def)
      have le: "i \<le> i'" using R by simp
      have allj: "\<forall>j. i \<le> j \<and> j < i' \<longrightarrow>
           j < length ?be \<and> ?be ! j \<in> visited (fst s') \<and> (outer \<longrightarrow> lower h cur (?be ! j))"
      proof (intro allI impI)
        fix j assume j: "i \<le> j \<and> j < i'"
        show "j < length ?be \<and> ?be ! j \<in> visited (fst s') \<and> (outer \<longrightarrow> lower h cur (?be ! j))"
        proof (cases "j = i")
          case True
          then show ?thesis using \<open>?go\<close> v mono by (auto simp: lower_def)
        next
          case False
          then have "i + 1 \<le> j \<and> j < i'" using j by simp
          then show ?thesis using R fr by (simp add: lower_def)
        qed
      qed
      have stop: "i' < length ?be \<longrightarrow> outer \<and> \<not> lower h cur (?be ! i')"
        using R fr by (simp add: lower_def)
      show ?thesis using adv le allj stop s by auto
    qed
  qed
  show ?case using A B by blast
qed

text \<open>More fuel does not change a result.\<close>

lemma case_mono:
  assumes "(case m of None \<Rightarrow> None | Some (Inl e) \<Rightarrow> Some (Inl e) | Some (Inr x) \<Rightarrow> f x) = Some r"
    and "\<And>x. m = Some x \<Longrightarrow> m' = Some x"
    and "\<And>x. m = Some (Inr x) \<Longrightarrow> f x = Some r \<Longrightarrow> f' x = Some r"
  shows "(case m' of None \<Rightarrow> None | Some (Inl e) \<Rightarrow> Some (Inl e) | Some (Inr x) \<Rightarrow> f' x) = Some r"
  using assms by (auto split: option.splits sum.splits)


lemma fuel_Suc:
  "(\<forall>s bb r. topoSortBwd n s bb = Some r \<longrightarrow> topoSortBwd (Suc n) s bb = Some r) \<and>
   (\<forall>outer s cur i r. bwd_edges n outer s cur i = Some r \<longrightarrow>
      bwd_edges (Suc n) outer s cur i = Some r)"
proof (induction n)
  case 0
  show ?case by simp
next
  case (Suc n)
  note IH1 = Suc[THEN conjunct1, rule_format]
  note IH2 = Suc[THEN conjunct2, rule_format]
  have A: "topoSortBwd (Suc (Suc n)) s bb = Some r" if run: "topoSortBwd (Suc n) s bb = Some r" for s bb r
  proof -
    obtain h t nf where s: "s = (h, t, nf)" by (cases s)
    show ?thesis
    proof (cases "BACKWARD_TOPO_SORT_VISITED \<in> flags (h bb)")
      case True
      then show ?thesis using run s by simp
    next
      case False
      show ?thesis
        using run unfolding s
        apply (subst topoSortBwd.simps(2))
        apply (subst (asm) topoSortBwd.simps(2))
        apply (simp only: False if_False)
        apply (erule case_mono)
         apply (erule IH2)
        apply (simp only: split_paired_all prod.case)
        subgoal for h1 t1 n1 i
          apply (cases "0 < i")
           apply (simp only: if_True)
           apply (cases "put bb (h1, t1, n1)")
            apply (simp only: sum.case)
           apply (simp only: sum.case)
           apply (erule case_mono, erule IH2, simp only: split_paired_all prod.case)
          apply (simp only: if_False)
          apply (erule case_mono, erule IH2, simp only: split_paired_all prod.case)
          done
        done
    qed
  qed
  have B: "bwd_edges (Suc (Suc n)) outer s cur i = Some r" if run: "bwd_edges (Suc n) outer s cur i = Some r" for outer s cur i r
  proof -
    obtain h t nf where s: "s = (h, t, nf)" by (cases s)
    let ?go = "i < length (backEdges (h cur)) \<and> (outer \<longrightarrow> outerLoops (h cur) > outerLoops (h (backEdges (h cur) ! i)))"
    show ?thesis
    proof (cases ?go)
      case False
      then have F: "?go = False" by simp
      show ?thesis using run unfolding s
        by (subst bwd_edges.simps(2), subst (asm) bwd_edges.simps(2)) (simp only: F if_False)
    next
      case True
      then have T: "?go = True" by simp
      show ?thesis
        using run unfolding s
        apply (subst bwd_edges.simps(2))
        apply (subst (asm) bwd_edges.simps(2))
        apply (simp only: T if_True)
        apply (erule case_mono)
         apply (erule IH1)
        apply (erule IH2)
        done
    qed
  qed
  show ?case using A B by blast
qed

lemma fuel_mono:
  assumes "n \<le> m"
  shows "topoSortBwd n s bb = Some r \<Longrightarrow> topoSortBwd m s bb = Some r"
    and "bwd_edges n outer s cur i = Some r' \<Longrightarrow> bwd_edges m outer s cur i = Some r'"
proof -
  have "(\<forall>s bb r. topoSortBwd n s bb = Some r \<longrightarrow> topoSortBwd (n + k) s bb = Some r) \<and>
        (\<forall>outer s cur i r. bwd_edges n outer s cur i = Some r \<longrightarrow>
           bwd_edges (n + k) outer s cur i = Some r)" for k
  proof (induction k)
    case 0
    show ?case by simp
  next
    case (Suc k)
    show ?case using Suc fuel_Suc[of "n + k"] by (simp del: topoSortBwd.simps bwd_edges.simps)
  qed
  from this[of "m - n"] assms
  have M: "(\<forall>s bb r. topoSortBwd n s bb = Some r \<longrightarrow> topoSortBwd m s bb = Some r) \<and>
        (\<forall>outer s cur i r. bwd_edges n outer s cur i = Some r \<longrightarrow>
           bwd_edges m outer s cur i = Some r)"
    by (simp del: split_paired_All)
  show "topoSortBwd n s bb = Some r \<Longrightarrow> topoSortBwd m s bb = Some r"
    using M[THEN conjunct1, rule_format] .
  show "bwd_edges n outer s cur i = Some r' \<Longrightarrow> bwd_edges m outer s cur i = Some r'"
    using M[THEN conjunct2, rule_format] .
qed

text \<open>With a finite graph and room in \<^verbatim>\<open>target\<close> for the blocks not yet visited and the
  \<open>pend\<close> blocks that are visited but not yet written, a call returns normally.\<close>

lemma advances_count:
  assumes adv: "advances s s' new" and ok: "sort_ok s"
    and sub: "visited (fst s') \<subseteq> visited (fst s) \<union> U" and fin: "finite U"
  shows "card (U - visited (fst s')) + length new = card (U - visited (fst s)) \<and>
         snd (snd s') = snd (snd s) + length new \<and> length (fst (snd s')) = length (fst (snd s))"
proof -
  obtain h t nf where s: "s = (h, t, nf)" by (cases s)
  obtain h' t' nf' where s': "s' = (h', t', nf')" by (cases s')
  have ok': "nf' \<le> length t'" and len: "length t' = length t"
    and em: "take nf' t' = take nf t @ new" and dist: "distinct new"
    and vis: "visited h' = visited h \<union> set new" and fresh: "set new \<inter> visited h = {}"
    using adv unfolding advances_def s s' by simp_all
  have nf: "nf \<le> length t" using ok s by simp
  have "length (take nf' t') = length (take nf t @ new)" using em by simp
  then have nf': "nf' = nf + length new" using ok' nf by simp
  have inU: "set new \<subseteq> U - visited h" using vis fresh sub s s' by auto
  have "U - visited h' = (U - visited h) - set new" using vis by auto
  then have "card (U - visited h') = card (U - visited h) - card (set new)"
    using inU fin by (simp add: card_Diff_subset)
  moreover have "card (set new) \<le> card (U - visited h)"
    using inU fin by (intro card_mono) auto
  moreover have "card (set new) = length new" using dist by (rule distinct_card)
  ultimately have "card (U - visited h') + length new = card (U - visited h)" by simp
  then show ?thesis using nf' len s s' by simp
qed

lemma advances_closed:
  assumes "advances s s' new" and "closed_under U (fst s)"
  shows "closed_under U (fst s')"
  using assms unfolding advances_def closed_under_def by simp

lemma sort_total:
  assumes fin: "finite U"
  shows "closed_under U (fst s) \<Longrightarrow> bb \<in> U \<Longrightarrow>
         card (U - visited (fst s)) + pend + snd (snd s) \<le> length (fst (snd s)) \<Longrightarrow>
         \<exists>n s'. topoSortBwd n s bb = Some (Inr s') \<and> visited (fst s') \<subseteq> visited (fst s) \<union> U"
proof (induction "card (U - visited (fst s))" arbitrary: s bb pend rule: less_induct)
  case less
  note IH = less.hyps
  have loop: "\<exists>n s' i'. bwd_edges n outer s1 cur i = Some (Inr (s', i')) \<and>
                visited (fst s') \<subseteq> visited (fst s1) \<union> U"
    if "closed_under U (fst s1)" and "cur \<in> U"
      and "card (U - visited (fst s1)) < card (U - visited (fst s))"
      and "card (U - visited (fst s1)) + pd + snd (snd s1) \<le> length (fst (snd s1))"
    for outer s1 cur i pd
    using that
  proof (induction "length (backEdges (fst s1 cur)) - i" arbitrary: s1 i)
    case 0
    obtain h1 t1 n1 where s1: "s1 = (h1, t1, n1)" by (cases s1)
    have "bwd_edges (Suc 0) outer s1 cur i = Some (Inr (s1, i))" using 0(1) s1 by simp
    then show ?case by blast
  next
    case (Suc m)
    obtain h1 t1 n1 where s1: "s1 = (h1, t1, n1)" by (cases s1)
    let ?be = "backEdges (h1 cur)"
    let ?go = "i < length ?be \<and> (outer \<longrightarrow> outerLoops (h1 cur) > outerLoops (h1 (?be ! i)))"
    show ?case
    proof (cases ?go)
      case False
      then have "bwd_edges (Suc 0) outer s1 cur i = Some (Inr (s1, i))" using s1 by simp
      then show ?thesis by blast
    next
      case True
      have ok1: "sort_ok s1" using Suc.prems(4) s1 by simp
      have pU: "?be ! i \<in> U"
        using True Suc.prems(1,2) s1 unfolding closed_under_def by (auto dest: nth_mem)
      from IH[OF Suc.prems(3) Suc.prems(1) _ Suc.prems(4), of "?be ! i"] pU
      obtain k1 s2 where run1: "topoSortBwd k1 s1 (?be ! i) = Some (Inr s2)"
        and vis2: "visited (fst s2) \<subseteq> visited (fst s1) \<union> U" by blast
      from sort_step[THEN conjunct1, rule_format, OF ok1 run1]
      obtain new where adv: "advances s1 s2 new" by blast
      note cnt = advances_count[OF adv ok1 vis2 fin]
      have c2: "closed_under U (fst s2)" using advances_closed[OF adv Suc.prems(1)] .
      have be2: "backEdges (fst s2 cur) = ?be" using adv s1 unfolding advances_def by simp
      have m: "m = length (backEdges (fst s2 cur)) - (i + 1)" using Suc.hyps(2) s1 be2 by simp
      have lt2: "card (U - visited (fst s2)) < card (U - visited (fst s))"
        using cnt Suc.prems(3) by simp
      have room2: "card (U - visited (fst s2)) + pd + snd (snd s2) \<le> length (fst (snd s2))"
        using cnt Suc.prems(4) by simp
      from Suc.hyps(1)[OF m c2 Suc.prems(2) lt2 room2]
      obtain k2 s' i' where run2: "bwd_edges k2 outer s2 cur (i + 1) = Some (Inr (s', i'))"
        and vis': "visited (fst s') \<subseteq> visited (fst s2) \<union> U" by blast
      let ?N = "max k1 k2"
      have r1: "topoSortBwd ?N s1 (?be ! i) = Some (Inr s2)"
        using fuel_mono(1)[OF _ run1, of ?N] by simp
      have r2: "bwd_edges ?N outer s2 cur (i + 1) = Some (Inr (s', i'))"
        using fuel_mono(2)[OF _ run2, of ?N] by simp
      have "bwd_edges (Suc ?N) outer s1 cur i = Some (Inr (s', i'))"
        using True r1 r2 unfolding s1 by (simp del: max.bounded_iff)
      moreover have "visited (fst s') \<subseteq> visited (fst s1) \<union> U" using vis' vis2 by blast
      ultimately show ?thesis by blast
    qed
  qed
  obtain h t nf where s: "s = (h, t, nf)" by (cases s)
  show ?case
  proof (cases "BACKWARD_TOPO_SORT_VISITED \<in> flags (h bb)")
    case True
    then have "topoSortBwd (Suc 0) s bb = Some (Inr s)" using s by simp
    then show ?thesis by blast
  next
    case False
    let ?s0 = "(mark BACKWARD_TOPO_SORT_VISITED bb h, t, nf)"
    have unv: "bb \<in> U - visited h" using False less.prems(2) by (simp add: visited_def)
    have v0: "U - visited (mark BACKWARD_TOPO_SORT_VISITED bb h) = (U - visited h) - {bb}"
      by (auto simp: mark_facts)
    have pos: "0 < card (U - visited h)" using unv fin by (metis card_gt_0_iff empty_iff finite_Diff)
    have card0: "card (U - visited (fst ?s0)) = card (U - visited h) - 1"
      using unv fin by (simp only: fst_conv v0 card_Diff_singleton)
    have lt0: "card (U - visited (fst ?s0)) < card (U - visited (fst s))"
      using card0 pos s by simp
    have c0: "closed_under U (fst ?s0)"
      using less.prems(1) s by (simp add: closed_under_def mark_facts)
    have room0: "card (U - visited (fst ?s0)) + (pend + 1) + snd (snd ?s0) \<le> length (fst (snd ?s0))"
      using less.prems(3) s card0 pos by simp
    have ok0: "sort_ok ?s0" using less.prems(3) s by simp
    from loop[OF c0 less.prems(2) lt0 room0, of True 0]
    obtain k1 s1 i where run1: "bwd_edges k1 True ?s0 bb 0 = Some (Inr (s1, i))"
      and vis1: "visited (fst s1) \<subseteq> visited (fst ?s0) \<union> U" by blast
    from sort_step[THEN conjunct2, rule_format, OF ok0 run1]
    obtain newA where advA: "advances ?s0 s1 newA" by blast
    note cntA = advances_count[OF advA ok0 vis1 fin]
    have ok1: "sort_ok s1" using advA unfolding advances_def by simp
    have c1: "closed_under U (fst s1)" using advances_closed[OF advA c0] .
    have lt1: "card (U - visited (fst s1)) < card (U - visited (fst s))" using cntA lt0 by simp
    have room1: "card (U - visited (fst s1)) + (pend + 1) + snd (snd s1) \<le> length (fst (snd s1))"
      using cntA room0 by simp
    have visU: "visited (fst ?s0) \<union> U = visited h \<union> U" using unv by (auto simp: mark_facts)
    show ?thesis
    proof (cases "0 < i")
      case True
      obtain h1 t1 n1 where s1: "s1 = (h1, t1, n1)" by (cases s1)
      let ?s2 = "(h1, t1[n1 := bb], n1 + 1)"
      have p: "put bb s1 = Inr ?s2" using room1 s1 by simp
      have c2: "closed_under U (fst ?s2)" using c1 s1 by simp
      have lt2: "card (U - visited (fst ?s2)) < card (U - visited (fst s))" using lt1 s1 by simp
      have room2: "card (U - visited (fst ?s2)) + pend + snd (snd ?s2) \<le> length (fst (snd ?s2))"
        using room1 s1 by simp
      from loop[OF c2 less.prems(2) lt2 room2, of False i]
      obtain k2 s3 i' where run2: "bwd_edges k2 False ?s2 bb i = Some (Inr (s3, i'))"
        and vis3: "visited (fst s3) \<subseteq> visited (fst ?s2) \<union> U" by blast
      let ?N = "max k1 k2"
      have r1: "bwd_edges ?N True ?s0 bb 0 = Some (Inr (s1, i))"
        using fuel_mono(2)[OF _ run1, of ?N] by simp
      have r2: "bwd_edges ?N False ?s2 bb i = Some (Inr (s3, i'))"
        using fuel_mono(2)[OF _ run2, of ?N] by simp
      have "topoSortBwd (Suc ?N) s bb = Some (Inr s3)"
        using False True r1 r2 p unfolding s by (simp del: max.bounded_iff put.simps)
      moreover have "visited (fst s3) \<subseteq> visited (fst s) \<union> U"
        using vis3 vis1 visU s s1 by auto
      ultimately show ?thesis by blast
    next
      case i0: False
      from loop[OF c1 less.prems(2) lt1 room1, of False i]
      obtain k2 s2 i' where run2: "bwd_edges k2 False s1 bb i = Some (Inr (s2, i'))"
        and vis2: "visited (fst s2) \<subseteq> visited (fst s1) \<union> U" by blast
      from sort_step[THEN conjunct2, rule_format, OF ok1 run2]
      obtain newB where advB: "advances s1 s2 newB" by blast
      note cntB = advances_count[OF advB ok1 vis2 fin]
      obtain h2 t2 n2 where s2: "s2 = (h2, t2, n2)" by (cases s2)
      let ?s3 = "(h2, t2[n2 := bb], n2 + 1)"
      have p: "put bb s2 = Inr ?s3" using cntB room1 s2 by simp
      let ?N = "max k1 k2"
      have r1: "bwd_edges ?N True ?s0 bb 0 = Some (Inr (s1, i))"
        using fuel_mono(2)[OF _ run1, of ?N] by simp
      have r2: "bwd_edges ?N False s1 bb i = Some (Inr (s2, i'))"
        using fuel_mono(2)[OF _ run2, of ?N] by simp
      have "topoSortBwd (Suc ?N) s bb = Some (Inr ?s3)"
        using False i0 r1 r2 p unfolding s by (simp del: max.bounded_iff put.simps)
      moreover have "visited (fst ?s3) \<subseteq> visited (fst s) \<union> U"
        using vis2 vis1 visU s s2 by auto
      ultimately show ?thesis by blast
    qed
  qed
qed

text \<open>The unvisited ancestors of a block are the block and the unvisited ancestors of
  its predecessors; those of a union are found one part after the other.\<close>

lemma fresh_anc_fresh: "p \<in> fresh_anc preds V S \<Longrightarrow> p \<notin> V"
  by (induction rule: fresh_anc.induct) auto

lemma fresh_anc_empty: "fresh_anc preds V {} = {}"
proof -
  have "p \<notin> fresh_anc preds V {}" for p
  proof
    assume "p \<in> fresh_anc preds V {}"
    then show False by (induction rule: fresh_anc.induct) auto
  qed
  then show ?thesis by blast
qed

lemma fresh_anc_mono:
  assumes "p \<in> fresh_anc preds V S" and "S \<subseteq> S'" and "V' \<subseteq> V"
  shows "p \<in> fresh_anc preds V' S'"
  using assms(1)
proof (induction rule: fresh_anc.induct)
  case (start p)
  then show ?case using assms(2,3) by (auto intro: fresh_anc.start)
next
  case (step q p)
  then show ?case using assms(3) by (auto intro: fresh_anc.step)
qed

lemma fresh_anc_one:
  assumes "bb \<notin> V"
  shows "fresh_anc preds V {bb} = insert bb (fresh_anc preds (insert bb V) (set (preds bb)))"
proof (intro equalityI subsetI)
  fix x
  assume "x \<in> fresh_anc preds V {bb}"
  then show "x \<in> insert bb (fresh_anc preds (insert bb V) (set (preds bb)))"
  proof (induction rule: fresh_anc.induct)
    case (start p)
    then show ?case by simp
  next
    case (step q p)
    show ?case
    proof (cases "p = bb")
      case True
      then show ?thesis by simp
    next
      case False
      show ?thesis
      proof (cases "q = bb")
        case True
        then have "p \<in> fresh_anc preds (insert bb V) (set (preds bb))"
          using step.hyps(2,3) False by (auto intro: fresh_anc.start)
        then show ?thesis by simp
      next
        case F: False
        then have "q \<in> fresh_anc preds (insert bb V) (set (preds bb))" using step.IH by simp
        then have "p \<in> fresh_anc preds (insert bb V) (set (preds bb))"
          using step.hyps(2,3) False by (auto intro: fresh_anc.step)
        then show ?thesis by simp
      qed
    qed
  qed
next
  fix x
  assume x: "x \<in> insert bb (fresh_anc preds (insert bb V) (set (preds bb)))"
  have bb: "bb \<in> fresh_anc preds V {bb}" using assms by (auto intro: fresh_anc.start)
  show "x \<in> fresh_anc preds V {bb}"
  proof (cases "x = bb")
    case True
    then show ?thesis using bb by simp
  next
    case False
    then have "x \<in> fresh_anc preds (insert bb V) (set (preds bb))" using x by simp
    then show ?thesis
    proof (induction rule: fresh_anc.induct)
      case (start p)
      then show ?case using bb by (auto intro: fresh_anc.step)
    next
      case (step q p)
      then show ?case by (auto intro: fresh_anc.step)
    qed
  qed
qed

lemma fresh_anc_union:
  "fresh_anc preds V (S1 \<union> S2) =
   fresh_anc preds V S1 \<union> fresh_anc preds (V \<union> fresh_anc preds V S1) S2"
proof (intro equalityI subsetI)
  fix x
  assume "x \<in> fresh_anc preds V (S1 \<union> S2)"
  then show "x \<in> fresh_anc preds V S1 \<union> fresh_anc preds (V \<union> fresh_anc preds V S1) S2"
  proof (induction rule: fresh_anc.induct)
    case (start p)
    then show ?case by (auto intro: fresh_anc.start)
  next
    case (step q p)
    then show ?case by (auto intro: fresh_anc.step)
  qed
next
  fix x
  assume "x \<in> fresh_anc preds V S1 \<union> fresh_anc preds (V \<union> fresh_anc preds V S1) S2"
  then show "x \<in> fresh_anc preds V (S1 \<union> S2)"
    by (auto intro: fresh_anc_mono)
qed

lemma fresh_anc_visited:
  assumes "S \<subseteq> V"
  shows "fresh_anc preds V S = {}"
proof -
  have "x \<notin> fresh_anc preds V S" for x
  proof
    assume "x \<in> fresh_anc preds V S"
    then show False using assms by (induction rule: fresh_anc.induct) auto
  qed
  then show ?thesis by blast
qed

text \<open>A call that returns normally has visited exactly the unvisited ancestors of its
  block, a loop those of the back-edges it went through.\<close>

lemma advances_preds: "advances s s' new \<Longrightarrow> preds_of (fst s') = preds_of (fst s)"
  by (auto simp: advances_def preds_of_def fun_eq_iff)

lemma sort_reach:
  "(\<forall>s bb s'. sort_ok s \<longrightarrow> topoSortBwd n s bb = Some (Inr s') \<longrightarrow>
      visited (fst s') =
        visited (fst s) \<union> fresh_anc (preds_of (fst s)) (visited (fst s)) {bb}) \<and>
   (\<forall>outer s cur i s' i'. sort_ok s \<longrightarrow> bwd_edges n outer s cur i = Some (Inr (s', i')) \<longrightarrow>
      visited (fst s') =
        visited (fst s) \<union>
        fresh_anc (preds_of (fst s)) (visited (fst s))
          (set (take (i' - i) (drop i (backEdges (fst s cur))))))"
proof (induction n)
  case 0
  show ?case by simp
next
  case (Suc n)
  note IH1 = Suc[THEN conjunct1, rule_format]
  note IH2 = Suc[THEN conjunct2, rule_format]
  have A: "visited (fst s') =
        visited (fst s) \<union> fresh_anc (preds_of (fst s)) (visited (fst s)) {bb}"
    if ok: "sort_ok s" and run: "topoSortBwd (Suc n) s bb = Some (Inr s')" for s bb s'
  proof -
    obtain h t nf where s: "s = (h, t, nf)" by (cases s)
    let ?V = "visited h"
    let ?P = "preds_of h"
    let ?be = "backEdges (h bb)"
    show ?thesis
    proof (cases "BACKWARD_TOPO_SORT_VISITED \<in> flags (h bb)")
      case True
      then have e: "s' = s" using run s by simp
      have "bb \<in> ?V" using True by (simp add: visited_def)
      then have "fresh_anc ?P ?V {bb} = {}" by (intro fresh_anc_visited) simp
      then show ?thesis using e s by simp
    next
      case False
      let ?s0 = "(mark BACKWARD_TOPO_SORT_VISITED bb h, t, nf)"
      let ?W = "insert bb ?V"
      have ok0: "sort_ok ?s0" using ok s by simp
      have nv: "bb \<notin> ?V" using False by (simp add: visited_def)
      have V0: "visited (fst ?s0) = ?W" by (simp add: mark_facts)
      have P0: "preds_of (fst ?s0) = ?P" by (simp add: preds_of_def mark_facts fun_eq_iff)
      have be0: "backEdges (fst ?s0 bb) = ?be" by (simp add: mark_facts)
      from run s False obtain s1 i where
        1: "bwd_edges n True ?s0 bb 0 = Some (Inr (s1, i))"
        by (auto split: option.splits sum.splits)
      note S1 = sort_step[THEN conjunct2, rule_format, OF ok0 1]
      from S1 obtain a where a: "advances ?s0 s1 a" by blast
      have ok1: "sort_ok s1" using a by (simp add: advances_def)
      have P1: "preds_of (fst s1) = ?P" using advances_preds[OF a] P0 by simp
      have be1: "backEdges (fst s1 bb) = ?be" using a by (simp add: advances_def mark_facts)
      have v1: "visited (fst s1) = ?W \<union> fresh_anc ?P ?W (set (take i ?be))"
        using IH2[OF ok0 1] by (simp only: V0 P0 be0 drop_0 diff_zero)
      have tail: "\<exists>s2 i'. bwd_edges n False s2 bb i = Some (Inr (s' , i')) \<and>
                    sort_ok s2 \<and> fst s2 = fst s1 \<or>
                  (\<exists>s2 i'. bwd_edges n False s1 bb i = Some (Inr (s2, i')) \<and> fst s' = fst s2)"
      proof (cases "i > 0")
        case True
        from run s False 1 True obtain s2 i' where
          2: "put bb s1 = Inr s2" and 3: "bwd_edges n False s2 bb i = Some (Inr (s', i'))"
          by (auto split: option.splits sum.splits)
        then show ?thesis using put_facts[OF 2 ok1] by blast
      next
        case F: False
        from run s False 1 F obtain s2 i' where
          2: "bwd_edges n False s1 bb i = Some (Inr (s2, i'))" and 3: "put bb s2 = Inr s'"
          by (auto split: option.splits sum.splits)
        from sort_step[THEN conjunct2, rule_format, OF ok1 2]
        have "sort_ok s2" by (auto simp: advances_def)
        then show ?thesis using 2 put_facts[OF 3] by blast
      qed
      have v': "visited (fst s') =
                  visited (fst s1) \<union> fresh_anc ?P (visited (fst s1)) (set (drop i ?be))"
      proof -
        have gen: "visited (fst r) =
                  visited (fst s1) \<union> fresh_anc ?P (visited (fst s1)) (set (drop i ?be))"
          if r: "bwd_edges n False s2 bb i = Some (Inr (r, i'))" and ok2: "sort_ok s2"
            and f2: "fst s2 = fst s1" for s2 r i'
        proof -
          note S2 = sort_step[THEN conjunct2, rule_format, OF ok2 r]
          have "length ?be \<le> i'" using S2 f2 be1 by simp
          then have t: "take (i' - i) (drop i ?be) = drop i ?be" by simp
          show ?thesis using IH2[OF ok2 r] by (simp only: f2 P1 be1 t)
        qed
        from tail show ?thesis
        proof (elim disjE exE conjE)
          fix s2 i'
          assume "bwd_edges n False s2 bb i = Some (Inr (s', i'))" "sort_ok s2" "fst s2 = fst s1"
          then show ?thesis by (rule gen)
        next
          fix s2 i'
          assume r: "bwd_edges n False s1 bb i = Some (Inr (s2, i'))" and e: "fst s' = fst s2"
          show ?thesis using gen[OF r ok1 refl] e by simp
        qed
      qed
      have sp: "set ?be = set (take i ?be) \<union> set (drop i ?be)"
        by (simp only: set_append[symmetric] append_take_drop_id)
      have U: "fresh_anc ?P ?W (set ?be) =
            fresh_anc ?P ?W (set (take i ?be)) \<union>
            fresh_anc ?P (?W \<union> fresh_anc ?P ?W (set (take i ?be))) (set (drop i ?be))"
        by (subst sp) (rule fresh_anc_union)
      have "visited (fst s') = ?W \<union> fresh_anc ?P ?W (set ?be)"
        unfolding U v' v1 by (rule Un_assoc)
      moreover have "fresh_anc ?P ?V {bb} = insert bb (fresh_anc ?P ?W (set ?be))"
        using fresh_anc_one[OF nv, of ?P] by (simp only: preds_of_def)
      ultimately have "visited (fst s') = ?V \<union> fresh_anc ?P ?V {bb}" by simp
      then show ?thesis unfolding s by (simp only: fst_conv)
    qed
  qed
  have B: "visited (fst s') =
        visited (fst s) \<union>
        fresh_anc (preds_of (fst s)) (visited (fst s))
          (set (take (i' - i) (drop i (backEdges (fst s cur)))))"
    if ok: "sort_ok s" and run: "bwd_edges (Suc n) outer s cur i = Some (Inr (s', i'))"
    for outer s cur i s' i'
  proof -
    obtain h t nf where s: "s = (h, t, nf)" by (cases s)
    let ?be = "backEdges (h cur)"
    let ?go = "i < length ?be \<and> (outer \<longrightarrow> outerLoops (h cur) > outerLoops (h (?be ! i)))"
    show ?thesis
    proof (cases ?go)
      case False
      then have "s' = s" "i' = i" using run s by auto
      then show ?thesis by (simp add: fresh_anc_empty)
    next
      case True
      from run s True obtain s1 where
        1: "topoSortBwd n s (?be ! i) = Some (Inr s1)"
        and 2: "bwd_edges n outer s1 cur (i + 1) = Some (Inr (s', i'))"
        by (auto split: option.splits sum.splits)
      from sort_step[THEN conjunct1, rule_format, OF ok 1]
      obtain a where a: "advances s s1 a" by blast
      have ok1: "sort_ok s1" using a by (simp add: advances_def)
      have P1: "preds_of (fst s1) = preds_of h" using advances_preds[OF a] s by simp
      have be1: "backEdges (fst s1 cur) = ?be" using a s by (simp add: advances_def)
      have le: "i + 1 \<le> i'" using sort_step[THEN conjunct2, rule_format, OF ok1 2] by simp
      have v1: "visited (fst s1) = visited h \<union> fresh_anc (preds_of h) (visited h) {?be ! i}"
        using IH1[OF ok 1] s by simp
      have v': "visited (fst s') = visited (fst s1) \<union>
                 fresh_anc (preds_of h) (visited (fst s1))
                   (set (take (i' - (i + 1)) (drop (i + 1) ?be)))"
        using IH2[OF ok1 2] by (simp only: P1 be1)
      have "take (i' - i) (drop i ?be) = ?be ! i # take (i' - (i + 1)) (drop (i + 1) ?be)"
      proof -
        have "drop i ?be = ?be ! i # drop (Suc i) ?be" using True by (simp add: Cons_nth_drop_Suc)
        moreover have "i' - i = Suc (i' - (i + 1))" using le by simp
        ultimately show ?thesis by simp
      qed
      then have E: "set (take (i' - i) (drop i ?be)) =
                 {?be ! i} \<union> set (take (i' - (i + 1)) (drop (i + 1) ?be))" by simp
      have U: "fresh_anc (preds_of h) (visited h) (set (take (i' - i) (drop i ?be))) =
            fresh_anc (preds_of h) (visited h) {?be ! i} \<union>
            fresh_anc (preds_of h) (visited h \<union> fresh_anc (preds_of h) (visited h) {?be ! i})
              (set (take (i' - (i + 1)) (drop (i + 1) ?be)))"
        unfolding E by (rule fresh_anc_union)
      have "visited (fst s') =
              visited h \<union> fresh_anc (preds_of h) (visited h) (set (take (i' - i) (drop i ?be)))"
        unfolding U v' v1 by (rule Un_assoc)
      then show ?thesis unfolding s by (simp only: fst_conv)
    qed
  qed
  show ?case using A B by blast
qed

text \<open>A call on a block that is not yet visited and whose first back-edge comes from a
  shallower block writes the block between the new ancestors of the leading shallower
  back-edges and those of the other back-edges.\<close>

lemma header_parts:
  assumes ok: "sort_ok (h, t, nf)"
    and run: "topoSortBwd n (h, t, nf) hb = Some (Inr s')"
    and unv: "hb \<notin> visited h"
    and ne: "backEdges (h hb) \<noteq> []"
    and shallow: "lower h hb (hd (backEdges (h hb)))"
  shows "\<exists>A B. emitted s' = take nf t @ A @ [hb] @ B \<and> distinct (A @ [hb] @ B) \<and>
           set A = fresh_anc (preds_of h) (insert hb (visited h))
                     (set (takeWhile (lower h hb) (backEdges (h hb)))) \<and>
           set B = fresh_anc (preds_of h) (insert hb (visited h) \<union> set A)
                     (set (dropWhile (lower h hb) (backEdges (h hb))))"
proof -
  let ?be = "backEdges (h hb)"
  let ?s0 = "(mark BACKWARD_TOPO_SORT_VISITED hb h, t, nf)"
  let ?W = "insert hb (visited h)"
  let ?P = "preds_of h"
  obtain m where n: "n = Suc m" using run by (cases n) auto
  have F: "BACKWARD_TOPO_SORT_VISITED \<notin> flags (h hb)" using unv by (simp add: visited_def)
  have ok0: "sort_ok ?s0" using ok by simp
  have low0: "lower (fst ?s0) hb = lower h hb" by (auto simp: lower_def mark_facts fun_eq_iff)
  have be0: "backEdges (fst ?s0 hb) = ?be" by (simp add: mark_facts)
  have W: "visited (fst ?s0) = ?W" by (simp add: mark_facts)
  have P0: "preds_of (fst ?s0) = ?P" by (simp add: preds_of_def mark_facts fun_eq_iff)
  from run n F obtain s1 i where
    1: "bwd_edges m True ?s0 hb 0 = Some (Inr (s1, i))"
    by (auto split: option.splits sum.splits)
  note R1 = sort_step[THEN conjunct2, rule_format, OF ok0 1, unfolded low0 be0]
  from R1 obtain A where a: "advances ?s0 s1 A" by blast
  have pre: "\<And>j. j < i \<Longrightarrow> j < length ?be \<and> lower h hb (?be ! j)"
    using R1 by simp
  have stop: "i < length ?be \<Longrightarrow> \<not> lower h hb (?be ! i)" using R1 by simp
  have ipos: "0 < i"
  proof (rule ccontr)
    assume "\<not> 0 < i"
    then have "\<not> lower h hb (?be ! 0)" using stop ne by simp
    then show False using shallow ne by (simp add: hd_conv_nth)
  qed
  have ile: "i \<le> length ?be"
  proof (cases i)
    case 0
    then show ?thesis by simp
  next
    case (Suc k)
    then have "k < length ?be" using pre[of k] by simp
    then show ?thesis using Suc by simp
  qed
  have tw: "takeWhile (lower h hb) ?be = take i ?be"
    by (rule takeWhile_eq_take_P_nth) (use pre stop in auto)
  have dw: "dropWhile (lower h hb) ?be = drop i ?be"
    using tw ile by (simp add: dropWhile_eq_drop)
  have ok1: "sort_ok s1" using a by (simp add: advances_def)
  from run n F 1 ipos obtain s2 s3 i' where
    2: "put hb s1 = Inr s2" and 3: "bwd_edges m False s2 hb i = Some (Inr (s3, i'))"
    and e: "s' = s3"
    by (auto split: option.splits sum.splits)
  note P = put_facts[OF 2 ok1]
  have ok2: "sort_ok s2" using P by simp
  have f2: "fst s2 = fst s1" using P by simp
  have be2: "backEdges (fst s2 hb) = ?be" using a P by (simp add: advances_def mark_facts)
  have P2: "preds_of (fst s2) = ?P" using advances_preds[OF a] P0 f2 by simp
  note R2 = sort_step[THEN conjunct2, rule_format, OF ok2 3, unfolded be2]
  from R2 obtain B where b: "advances s2 s3 B" by blast
  have i'ge: "length ?be \<le> i'" using R2 by simp
  have v1: "visited (fst s1) = ?W \<union> set A"
    and fA: "set A \<inter> ?W = {}" and dA: "distinct A"
    and eA: "emitted s1 = take nf t @ A"
    using a by (simp_all add: advances_def mark_facts)
  have v3: "visited (fst s3) = (?W \<union> set A) \<union> set B"
    and fB: "set B \<inter> (?W \<union> set A) = {}" and dB: "distinct B"
    and eB: "emitted s3 = take nf t @ A @ [hb] @ B"
    using b P v1 eA by (simp_all add: advances_def)
  have c1: "distinct (A @ [hb] @ B)" using dA dB fA fB by auto
  have r1: "visited (fst s1) = ?W \<union> fresh_anc ?P ?W (set (take i ?be))"
    using sort_reach[THEN conjunct2, rule_format, OF ok0 1]
    by (simp only: W P0 be0 drop_0 diff_zero)
  have sA: "set A = fresh_anc ?P ?W (set (take i ?be))"
  proof -
    have "fresh_anc ?P ?W (set (take i ?be)) \<inter> ?W = {}"
      using fresh_anc_fresh[of _ ?P ?W] by blast
    then show ?thesis using r1 v1 fA by blast
  qed
  have t: "take (i' - i) (drop i ?be) = drop i ?be" using i'ge by simp
  have r3: "visited (fst s3) =
              (?W \<union> set A) \<union> fresh_anc ?P (?W \<union> set A) (set (drop i ?be))"
    using sort_reach[THEN conjunct2, rule_format, OF ok2 3]
    by (simp only: f2 v1 P2[unfolded f2] be2[unfolded f2] t)
  have sB: "set B = fresh_anc ?P (?W \<union> set A) (set (drop i ?be))"
  proof -
    have "fresh_anc ?P (?W \<union> set A) (set (drop i ?be)) \<inter> (?W \<union> set A) = {}"
      using fresh_anc_fresh[of _ ?P "?W \<union> set A"] by blast
    then show ?thesis using r3 v3 fB by blast
  qed
  show ?thesis using eB c1 sA sB e tw dw by metis
qed

text \<open>When the strictly shallower predecessors are a prefix of the back-edges, the
  leading run is that prefix.\<close>

lemma leading_run_prefix:
  assumes "backEdges (h hb) = ys @ zs" and "list_all (lower h hb) ys"
    and "list_all (\<lambda>p. \<not> lower h hb p) zs"
  shows "takeWhile (lower h hb) (backEdges (h hb)) = ys \<and>
         dropWhile (lower h hb) (backEdges (h hb)) = zs"
proof (cases zs)
  case Nil
  then show ?thesis using assms by (simp add: list_all_iff)
next
  case (Cons z zs')
  then have "\<not> lower h hb z" using assms(3) by simp
  then show ?thesis
    using assms(1,2) Cons by (simp add: list_all_iff takeWhile_append2 dropWhile_append2)
qed

lemma preheader_first_fresh: "visited (heap preheader_first_cfg) = {}"
  by (auto simp: visited_def preheader_first_cfg_def example_defs nth_Cons' split: if_splits)

lemma preheader_first_run:
  "\<exists>s. topoSortBwd 10 (heap preheader_first_cfg, replicate 5 0, 0) 3 = Some (Inr s) \<and>
       emitted s = [0, 2, 3, 4]"
  by (simp add: eval_nat_numeral preheader_first_cfg_def example_defs mark_def)

text \<open>
  Claim C7, amended: let a call of \<open>topoSortBwd\<close> reach a block \<open>hb\<close> that is not yet visited
  and whose first back-edge comes from a strictly shallower block, in a finite graph with
  room in \<^verbatim>\<open>target\<close> for the blocks not yet visited. The call returns and appends
  \<open>A @ [hb] @ B\<close> to the written part of \<^verbatim>\<open>target\<close>, without repetition. \<open>A\<close>, before the
  header, holds exactly the blocks not yet visited from which a back-edge of the leading
  run of strictly shallower back-edges is reached through blocks not yet visited, \<open>hb\<close>
  apart; \<open>B\<close>, after the header, holds exactly the blocks then still not visited from which
  one of the other back-edges is reached in that way. So every predecessor of the leading
  run was visited before the call or is written before \<open>hb\<close>, and every other predecessor
  is written after \<open>hb\<close> unless it was visited before the call, is such an ancestor of a
  leading predecessor, or is \<open>hb\<close> itself.
\<close>

theorem loop_header_emission:
  assumes fin: "finite U" and cl: "closed_under U h" and inU: "hb \<in> U"
    and room: "nf + card (U - visited h) \<le> length t"
    and unv: "hb \<notin> visited h"
    and ne: "backEdges (h hb) \<noteq> []"
    and shallow: "lower h hb (hd (backEdges (h hb)))"
  shows "\<exists>n s' A B. topoSortBwd n (h, t, nf) hb = Some (Inr s') \<and>
           emitted s' = take nf t @ A @ [hb] @ B \<and> distinct (A @ [hb] @ B) \<and>
           set A = fresh_anc (preds_of h) (insert hb (visited h))
                     (set (takeWhile (lower h hb) (backEdges (h hb)))) \<and>
           set B = fresh_anc (preds_of h) (insert hb (visited h) \<union> set A)
                     (set (dropWhile (lower h hb) (backEdges (h hb)))) \<and>
           set (takeWhile (lower h hb) (backEdges (h hb))) \<subseteq> visited h \<union> set A \<and>
           set (dropWhile (lower h hb) (backEdges (h hb))) \<subseteq>
             visited h \<union> set A \<union> {hb} \<union> set B"
proof -
  let ?L = "takeWhile (lower h hb) (backEdges (h hb))"
  let ?R = "dropWhile (lower h hb) (backEdges (h hb))"
  let ?W = "insert hb (visited h)"
  have ok: "sort_ok (h, t, nf)" using room by simp
  from sort_total[OF fin, of "(h, t, nf)" hb 0] cl inU room
  obtain n s' where run: "topoSortBwd n (h, t, nf) hb = Some (Inr s')" by auto
  from header_parts[OF ok run unv ne shallow]
  obtain A B where e: "emitted s' = take nf t @ A @ [hb] @ B" and d: "distinct (A @ [hb] @ B)"
    and sA: "set A = fresh_anc (preds_of h) ?W (set ?L)"
    and sB: "set B = fresh_anc (preds_of h) (?W \<union> set A) (set ?R)"
    by blast
  have l: "set ?L \<subseteq> visited h \<union> set A"
  proof
    fix p
    assume p: "p \<in> set ?L"
    then have "lower h hb p" by (rule set_takeWhileD[THEN conjunct2])
    then have "p \<noteq> hb" by (auto simp: lower_def)
    then show "p \<in> visited h \<union> set A"
      using p sA fresh_anc.start[of p "set ?L" ?W "preds_of h"] by auto
  qed
  have r: "set ?R \<subseteq> visited h \<union> set A \<union> {hb} \<union> set B"
  proof
    fix p
    assume p: "p \<in> set ?R"
    show "p \<in> visited h \<union> set A \<union> {hb} \<union> set B"
      using p sB fresh_anc.start[of p "set ?R" "?W \<union> set A" "preds_of h"] by auto
  qed
  show ?thesis using run e d sA sB l r by blast
qed

theorem loop_header_emission_witness:
  "finite {0, 1, 2, 3, 4 :: nat} \<and> closed_under {0, 1, 2, 3, 4} (heap preheader_first_cfg) \<and>
   backEdges (heap preheader_first_cfg 3) = [2, 4] \<and>
   lower (heap preheader_first_cfg) 3 2 \<and> \<not> lower (heap preheader_first_cfg) 3 4 \<and>
   (\<exists>n s'. topoSortBwd n (heap preheader_first_cfg, replicate 5 0, 0) 3 = Some (Inr s') \<and>
      emitted s' = [0, 2] @ [3] @ [4]) \<and>
   fresh_anc (preds_of (heap preheader_first_cfg)) {3} {2} = {0, 2} \<and>
   fresh_anc (preds_of (heap preheader_first_cfg)) {0, 2, 3} {4} = {4}"
proof -
  let ?h = "heap preheader_first_cfg"
  have c: "closed_under {0, 1, 2, 3, 4} ?h"
    by (simp add: closed_under_def preheader_first_cfg_def example_defs)
  have be: "backEdges (?h 3) = [2, 4]" and l2: "lower ?h 3 2" and l4: "\<not> lower ?h 3 4"
    by (simp_all add: lower_def preheader_first_cfg_def example_defs)
  have r: "0 + card ({0, 1, 2, 3, 4 :: nat} - visited ?h) \<le> length (replicate 5 (0 :: nat))"
    by (simp add: preheader_first_fresh)
  from loop_header_emission[of "{0, 1, 2, 3, 4}" ?h 3 0 "replicate 5 0", OF _ c _ r]
  obtain n s' A B where run: "topoSortBwd n (?h, replicate 5 0, 0) 3 = Some (Inr s')"
    and e: "emitted s' = A @ [3] @ B" and d: "distinct (A @ [3] @ B)"
    and sA: "set A = fresh_anc (preds_of ?h) {3} {2}"
    and sB: "set B = fresh_anc (preds_of ?h) ({3} \<union> set A) {4}"
    using be l2 l4 by (auto simp: preheader_first_fresh)
  from preheader_first_run obtain s where
    run10: "topoSortBwd 10 (?h, replicate 5 0, 0) 3 = Some (Inr s)"
    and e10: "emitted s = [0, 2, 3, 4]" by blast
  have "topoSortBwd (max n 10) (?h, replicate 5 0, 0) 3 = Some (Inr s')"
    using fuel_mono(1)[OF _ run, of "max n 10"] by simp
  moreover have "topoSortBwd (max n 10) (?h, replicate 5 0, 0) 3 = Some (Inr s)"
    using fuel_mono(1)[OF _ run10, of "max n 10"] by simp
  ultimately have "s' = s" by simp
  then have "A @ 3 # B = [0, 2] @ 3 # [4]" using e e10 by simp
  moreover have "3 \<notin> set A" "3 \<notin> set B" using d by auto
  ultimately have AB: "A = [0, 2] \<and> B = [4]"
    using append_Cons_eq_iff[of 3 A B "[0, 2]" "[4]"] by simp
  have f1: "fresh_anc (preds_of ?h) {3} {2} = {0, 2}" using sA AB by auto
  have f2: "fresh_anc (preds_of ?h) {0, 2, 3} {4} = {4}"
    using sB AB by (simp add: insert_commute)
  have em: "emitted s' = [0, 2] @ [3] @ [4]" using e AB by simp
  have "\<exists>n s'. topoSortBwd n (?h, replicate 5 0, 0) 3 = Some (Inr s') \<and>
      emitted s' = [0, 2] @ [3] @ [4]"
    using run em by blast
  then show ?thesis using c be l2 l4 f1 f2 by simp
qed

text \<open>
  Claim C7, as the spec has it: every same-or-deeper predecessor of a loop header is
  written after the header. In \<open>sibling_cfg\<close> the shallower predecessors are a prefix of
  every list of back-edges. The header 3 has the shallower predecessor 0 and the
  predecessor 2 of its own depth; the sort from the dead block reaches block 2 first and
  writes it, so block 2 stands before the header 3.
\<close>

theorem sibling_before_header:
  "sanityCheck sibling_cfg \<and>
   list_all (depth_prefix (heap sibling_cfg)) (basicBlocks sibling_cfg) \<and>
   backEdges (heap sibling_cfg 3) = [0, 2] \<and>
   outerLoops (heap sibling_cfg 0) < outerLoops (heap sibling_cfg 3) \<and>
   outerLoops (heap sibling_cfg 2) = outerLoops (heap sibling_cfg 3) \<and>
   written (topoSortBwd 10 (heap sibling_cfg, replicate 4 0, 0) (deadBlock sibling_cfg)) =
     [0, 2, 3, 1]"
  by (simp add: written_def eval_nat_numeral sibling_cfg_def example_defs mark_def
      sanityCheck_def parents_aware_def backedges_set_def depth_prefix_def lower_def var_a_def)

section \<open>The size of the scratch arrays\<close>

text \<open>Each step of \<open>dealias\<close> returns exactly when its indices are below the length of
  \<^verbatim>\<open>outAliases\<close>, and leaves ids, back-edges and that length as they were.\<close>

lemma dealias_parents_ok:
  "(\<exists>oa'. dealias_parents h c ps oa = Inr oa') = list_all (\<lambda>p. bb_id (h p) < length oa) ps"
  by (induction ps arbitrary: oa) (auto simp: at_def)

lemma dealias_block_ok:
  "(\<exists>r. dealias_block ctx h bb oa = Inr r) =
   (bb_id (h bb) < length oa \<and> list_all (\<lambda>p. bb_id (h p) < length oa) (backEdges (h bb)))"
proof (cases "dealias_seed h bb oa")
  case (Inl e)
  then have "\<not> (bb_id (h bb) < length oa \<and>
      (backEdges (h bb) \<noteq> [] \<longrightarrow> bb_id (h (hd (backEdges (h bb)))) < length oa))"
    by (auto simp: dealias_seed_def at_def split: if_splits)
  then have "\<not> (bb_id (h bb) < length oa \<and>
      list_all (\<lambda>p. bb_id (h p) < length oa) (backEdges (h bb)))"
    by (cases "backEdges (h bb)") auto
  then show ?thesis using Inl by (simp add: dealias_block_def)
next
  case (Inr oa1)
  note L = dealias_seed_length[OF Inr]
  have "(\<exists>oa2. dealias_parents h (bb_id (h bb)) (backEdges (h bb)) oa1 = Inr oa2) =
        list_all (\<lambda>p. bb_id (h p) < length oa) (backEdges (h bb))"
    using dealias_parents_ok[of h "bb_id (h bb)" "backEdges (h bb)" oa1] L by simp
  then show ?thesis using Inr L
    by (cases "dealias_parents h (bb_id (h bb)) (backEdges (h bb)) oa1")
       (auto simp: dealias_block_def split: prod.splits)
qed

lemma dealias_block_keeps:
  assumes "dealias_block ctx h bb oa = Inr (h', oa')"
  shows "length oa' = length oa \<and> bb_id (h' p) = bb_id (h p) \<and> backEdges (h' p) = backEdges (h p)"
proof -
  from assms obtain oa1 oa2 where
    1: "dealias_seed h bb oa = Inr oa1"
    and 2: "dealias_parents h (bb_id (h bb)) (backEdges (h bb)) oa1 = Inr oa2"
    by (auto simp: dealias_block_def split: sum.splits)
  have "length oa2 = length oa" using dealias_seed_length[OF 1] dealias_parents_length[OF 2] by simp
  then show ?thesis using assms 1 2
    by (auto simp: dealias_block_def split: prod.splits)
qed

lemma dealias_blocks_ok:
  "(\<exists>r. dealias_blocks ctx dead bbs h oa = Inr r) =
   list_all (\<lambda>i. i < length oa)
     (concat (map (\<lambda>bb. bb_id (h bb) # map (\<lambda>p. bb_id (h p)) (backEdges (h bb)))
                (filter (\<lambda>bb. bb \<noteq> dead) bbs)))"
proof (induction bbs arbitrary: h oa)
  case Nil
  show ?case by simp
next
  case (Cons bb bbs)
  show ?case
  proof (cases "bb = dead")
    case True
    then show ?thesis using Cons by simp
  next
    case False
    show ?thesis
    proof (cases "dealias_block ctx h bb oa")
      case (Inl e)
      then have "\<not> (bb_id (h bb) < length oa \<and>
          list_all (\<lambda>p. bb_id (h p) < length oa) (backEdges (h bb)))"
        using dealias_block_ok[of ctx h bb oa] by simp
      then show ?thesis using Inl False by (auto simp: list.pred_map comp_def)
    next
      case (Inr r)
      obtain h' oa' where r: "r = (h', oa')" by (cases r)
      note K = dealias_block_keeps[OF Inr[unfolded r]]
      have same: "(\<lambda>bb. bb_id (h' bb) # map (\<lambda>p. bb_id (h' p)) (backEdges (h' bb))) =
                  (\<lambda>bb. bb_id (h bb) # map (\<lambda>p. bb_id (h p)) (backEdges (h bb)))"
        using K by (simp add: fun_eq_iff)
      have here: "bb_id (h bb) < length oa \<and>
          list_all (\<lambda>p. bb_id (h p) < length oa) (backEdges (h bb))"
        using dealias_block_ok[of ctx h bb oa] Inr by simp
      have "(\<exists>r. dealias_blocks ctx dead (bb # bbs) h oa = Inr r) =
            (\<exists>r. dealias_blocks ctx dead bbs h' oa' = Inr r)"
        using Inr r False by simp
      also have "\<dots> = list_all (\<lambda>i. i < length oa)
          (concat (map (\<lambda>bb. bb_id (h bb) # map (\<lambda>p. bb_id (h p)) (backEdges (h bb)))
                     (filter (\<lambda>bb. bb \<noteq> dead) bbs)))"
        using Cons[of h' oa'] K by (simp only: same)
      finally have step: "(\<exists>r. dealias_blocks ctx dead (bb # bbs) h oa = Inr r) =
          list_all (\<lambda>i. i < length oa)
            (concat (map (\<lambda>bb. bb_id (h bb) # map (\<lambda>p. bb_id (h p)) (backEdges (h bb)))
                       (filter (\<lambda>bb. bb \<noteq> dead) bbs)))" .
      have "list_all (\<lambda>i. i < length oa)
            (concat (map (\<lambda>bb. bb_id (h bb) # map (\<lambda>p. bb_id (h p)) (backEdges (h bb)))
                       (filter (\<lambda>bb. bb \<noteq> dead) (bb # bbs)))) =
          list_all (\<lambda>i. i < length oa)
            (concat (map (\<lambda>bb. bb_id (h bb) # map (\<lambda>p. bb_id (h p)) (backEdges (h bb)))
                       (filter (\<lambda>bb. bb \<noteq> dead) bbs)))"
        using here False by (simp add: list.pred_map comp_def)
      then show ?thesis by (simp only: step)
    qed
  qed
qed

lemma dealias_ok:
  "(\<exists>cfg'. dealias ctx cfg = Inr cfg') = in_bounds cfg (dealias_indices cfg)"
proof -
  let ?run = "dealias_blocks ctx (deadBlock cfg) (backwardsTopoSort cfg) (heap cfg)
             (replicate (length (basicBlocks cfg)) Map.empty)"
  have "(\<exists>cfg'. dealias ctx cfg = Inr cfg') = (\<exists>r. ?run = Inr r)"
    by (cases ?run) (auto simp: dealias_def)
  then show ?thesis
    using dealias_blocks_ok[of ctx "deadBlock cfg" "backwardsTopoSort cfg" "heap cfg"
        "replicate (length (basicBlocks cfg)) Map.empty"]
    by (simp add: in_bounds_def dealias_indices_def)
qed

text \<open>The same for the steps of \<open>fillInBlockArguments\<close>.\<close>

lemma insert_at_ok:
  "(\<exists>t'. insert_at h x bbs tbl = Inr t') = list_all (\<lambda>bb. bb_id (h bb) < length tbl) bbs"
  by (induction bbs arbitrary: tbl) auto

lemma insert_at_length: "insert_at h x bbs tbl = Inr t' \<Longrightarrow> length t' = length tbl"
  by (induction bbs arbitrary: tbl) (auto split: if_splits)

lemma entry_of_with_key: "entry_of (with_key x m) y = entry_of m y"
  by (auto simp: entry_of_def with_key_def split: option.splits if_splits)

lemma prune_writes_ok:
  assumes "length rbb = n" and "length wbb = n"
  shows "((\<exists>r. prune_writes h ws rs rbb wbb = Inr r) =
          list_all (\<lambda>bb. bb_id (h bb) < n)
            (concat (map (\<lambda>(x, wts). entry_of rs x @ (if entry_of rs x = [] then [] else wts)) ws))) \<and>
         (\<forall>ws' rs' rbb' wbb'. prune_writes h ws rs rbb wbb = Inr (ws', rs', rbb', wbb') \<longrightarrow>
            length rbb' = n \<and> length wbb' = n)"
  using assms
proof (induction ws arbitrary: rs rbb wbb)
  case Nil
  then show ?case by simp
next
  case (Cons a ws)
  obtain x wts where a: "a = (x, wts)" by (cases a)
  let ?rs1 = "with_key x rs"
  let ?rds = "entry_of rs x"
  let ?wts1 = "if ?rds = [] then [] else wts"
  let ?rest = "concat (map (\<lambda>(x, wts). entry_of rs x @ (if entry_of rs x = [] then [] else wts)) ws)"
  have same: "(\<lambda>(y, wts). entry_of ?rs1 y @ (if entry_of ?rs1 y = [] then [] else wts)) =
              (\<lambda>(y, wts). entry_of rs y @ (if entry_of rs y = [] then [] else wts))"
    by (simp add: entry_of_with_key)
  have unf: "prune_writes h (a # ws) rs rbb wbb =
      (case insert_at h x ?rds rbb of
         Inl e \<Rightarrow> Inl e
       | Inr rbb1 \<Rightarrow>
           (case insert_at h x ?wts1 wbb of
              Inl e \<Rightarrow> Inl e
            | Inr wbb1 \<Rightarrow>
                (case prune_writes h ws ?rs1 rbb1 wbb1 of
                   Inl e \<Rightarrow> Inl e
                 | Inr (rest', rs', rbb', wbb') \<Rightarrow> Inr ((x, ?wts1) # rest', rs', rbb', wbb'))))"
    by (simp add: a Let_def entry_of_with_key)
  have all: "list_all (\<lambda>bb. bb_id (h bb) < n)
               (concat (map (\<lambda>(x, wts). entry_of rs x @ (if entry_of rs x = [] then [] else wts)) (a # ws))) =
             (list_all (\<lambda>bb. bb_id (h bb) < n) ?rds \<and> list_all (\<lambda>bb. bb_id (h bb) < n) ?wts1 \<and>
              list_all (\<lambda>bb. bb_id (h bb) < n) ?rest)"
    by (simp add: a)
  show ?case
  proof (cases "insert_at h x ?rds rbb")
    case (Inl e)
    then have "\<not> list_all (\<lambda>bb. bb_id (h bb) < n) ?rds"
      using insert_at_ok[of h x ?rds rbb] Cons.prems(1) by simp
    then show ?thesis unfolding unf all using Inl by simp
  next
    case r: (Inr rbb1)
    have l1: "length rbb1 = n" using insert_at_length[OF r] Cons.prems(1) by simp
    have o1: "list_all (\<lambda>bb. bb_id (h bb) < n) ?rds"
      using insert_at_ok[of h x ?rds rbb] r Cons.prems(1) by simp
    show ?thesis
    proof (cases "insert_at h x ?wts1 wbb")
      case (Inl e)
      then have "\<not> list_all (\<lambda>bb. bb_id (h bb) < n) ?wts1"
        using insert_at_ok[of h x ?wts1 wbb] Cons.prems(2) by simp
      then show ?thesis unfolding unf all using Inl r by simp
    next
      case w: (Inr wbb1)
      have l2: "length wbb1 = n" using insert_at_length[OF w] Cons.prems(2) by simp
      have o2: "list_all (\<lambda>bb. bb_id (h bb) < n) ?wts1"
        using insert_at_ok[of h x ?wts1 wbb] w Cons.prems(2) by simp
      note IH = Cons.IH[OF l1 l2, of ?rs1, unfolded same]
      show ?thesis
      proof (cases "prune_writes h ws ?rs1 rbb1 wbb1")
        case (Inl e)
        then have "\<not> list_all (\<lambda>bb. bb_id (h bb) < n) ?rest" using IH by simp
        then show ?thesis unfolding unf all using Inl r w by simp
      next
        case (Inr q)
        have ex: "\<exists>r. prune_writes h ws ?rs1 rbb1 wbb1 = Inr r" using Inr by (rule exI)
        have "list_all (\<lambda>bb. bb_id (h bb) < n) ?rest"
          by (rule iffD1[OF IH[THEN conjunct1] ex])
        moreover obtain rest' rs' rbb' wbb' where q: "q = (rest', rs', rbb', wbb')"
          by (cases q)
        moreover have "length rbb' = n \<and> length wbb' = n" using IH Inr q by simp
        ultimately show ?thesis unfolding unf all using Inr r w o1 o2 by simp
      qed
    qed
  qed
qed

lemma preprocess_ok:
  "((\<exists>r. preprocess h n RnW = Inr r) = list_all (\<lambda>bb. bb_id (h bb) < n) (table_blocks RnW)) \<and>
   (\<forall>RnW' rbb wbb. preprocess h n RnW = Inr (RnW', rbb, wbb) \<longrightarrow>
      length rbb = n \<and> length wbb = n)"
proof -
  obtain rs ws where p: "prune_reads (reads RnW) (writes RnW) = (rs, ws)"
    by (cases "prune_reads (reads RnW) (writes RnW)")
  note W = prune_writes_ok[of "replicate n []" n "replicate n []" h ws rs, simplified]
  show ?thesis
  proof (cases "prune_writes h ws rs (replicate n []) (replicate n [])")
    case (Inl e)
    then show ?thesis using W p by (simp add: preprocess_def table_blocks_def)
  next
    case (Inr q)
    obtain a b c d where q: "q = (a, b, c, d)" by (cases q)
    show ?thesis using W p Inr q by (simp add: preprocess_def table_blocks_def)
  qed
qed

lemma absorb_ok:
  "(\<exists>ub'. absorb i js ub = Inr ub') = list_all (\<lambda>j. j < length ub) js"
  by (induction js arbitrary: ub) auto

lemma absorb_length: "absorb i js ub = Inr ub' \<Longrightarrow> length ub' = length ub"
  by (induction js arbitrary: ub) (auto split: if_splits)

lemma grow_block_ok:
  "(\<exists>r. grow_block base i js ub = Inr r) =
   (i < length ub \<and> i < length base \<and> list_all (\<lambda>j. j < length ub) js)"
proof (cases "i < length ub \<and> i < length base")
  case False
  then show ?thesis by (auto simp: grow_block_def)
next
  case True
  let ?ub1 = "ub[i := insert_range (base ! i) (ub ! i)]"
  have "(\<exists>ub'. absorb i js ?ub1 = Inr ub') = list_all (\<lambda>j. j < length ub) js"
    using absorb_ok[of i js ?ub1] by simp
  then show ?thesis using True
    by (cases "absorb i js ?ub1") (auto simp: grow_block_def)
qed

lemma grow_block_length: "grow_block base i js ub = Inr (ub', g) \<Longrightarrow> length ub' = length ub"
  by (auto simp: grow_block_def split: if_splits sum.splits dest: absorb_length)

lemma grow_pass_ok:
  assumes "length base = n" and "length ub = n"
  shows "((\<exists>r. grow_pass nbrs idf base bbs ub ch = Inr r) =
          list_all (\<lambda>i. i < n) (concat (map (\<lambda>bb. idf bb # nbrs bb) bbs))) \<and>
         (\<forall>ub' ch'. grow_pass nbrs idf base bbs ub ch = Inr (ub', ch') \<longrightarrow> length ub' = n)"
  using assms(2)
proof (induction bbs arbitrary: ub ch)
  case Nil
  then show ?case by simp
next
  case (Cons bb bbs)
  show ?case
  proof (cases "grow_block base (idf bb) (nbrs bb) ub")
    case (Inl e)
    then have "\<not> (idf bb < n \<and> list_all (\<lambda>j. j < n) (nbrs bb))"
      using grow_block_ok[of base "idf bb" "nbrs bb" ub] assms(1) Cons.prems by simp
    then show ?thesis using Inl by auto
  next
    case (Inr r)
    obtain ub1 g where r: "r = (ub1, g)" by (cases r)
    have here: "idf bb < n \<and> list_all (\<lambda>j. j < n) (nbrs bb)"
      using grow_block_ok[of base "idf bb" "nbrs bb" ub] assms(1) Cons.prems Inr by simp
    have l1: "length ub1 = n" using grow_block_length[OF Inr[unfolded r]] Cons.prems by simp
    show ?thesis using Cons.IH[OF l1, of "ch \<or> g"] Inr r here by simp
  qed
qed

lemma grow_loop_ok:
  "length base = n \<Longrightarrow> length ub = n \<Longrightarrow>
   ((\<exists>r. grow_loop nbrs idf base ts ub = Inr r) =
      list_all (\<lambda>i. i < n) (concat (map (\<lambda>bb. idf bb # nbrs bb) ts))) \<and>
   (\<forall>r. grow_loop nbrs idf base ts ub = Inr r \<longrightarrow> length r = n)"
proof (induction nbrs idf base ts ub rule: grow_loop.induct)
  case (1 nbrs idf base ts ub)
  note P = grow_pass_ok[OF 1(2) 1(3), of nbrs idf ts False]
  show ?case
  proof (cases "grow_pass nbrs idf base ts ub False")
    case (Inl e)
    then have "\<not> list_all (\<lambda>i. i < n) (concat (map (\<lambda>bb. idf bb # nbrs bb) ts))"
      using P by simp
    moreover have "grow_loop nbrs idf base ts ub = Inl e"
      using Inl by (simp add: grow_loop.simps[of nbrs idf base ts ub])
    ultimately show ?thesis by simp
  next
    case (Inr p)
    obtain ub' changed where p: "p = (ub', changed)" by (cases p)
    have ex: "\<exists>r. grow_pass nbrs idf base ts ub False = Inr r" using Inr by (rule exI)
    have all: "list_all (\<lambda>i. i < n) (concat (map (\<lambda>bb. idf bb # nbrs bb) ts))"
      by (rule iffD1[OF P[THEN conjunct1] ex])
    have l': "length ub' = n" using P Inr p by simp
    show ?thesis
    proof (cases changed)
      case True
      have e: "grow_loop nbrs idf base ts ub = grow_loop nbrs idf base ts ub'"
        using Inr p True by (simp add: grow_loop.simps[of nbrs idf base ts ub])
      show ?thesis unfolding e by (rule 1(1)[OF Inr p[symmetric] True 1(2) l'])
    next
      case False
      have "grow_loop nbrs idf base ts ub = Inr ub'"
        using Inr p False by (simp add: grow_loop.simps[of nbrs idf base ts ub])
      then show ?thesis using all l' by simp
    qed
  qed
qed

lemma fill_args_ok:
  "(\<exists>h'. fill_args u1 u2 its h = Inr h') =
   list_all (\<lambda>it. bb_id (h it) < length u2 \<and> bb_id (h it) < length u1) its"
proof (induction its arbitrary: h)
  case Nil
  show ?case by simp
next
  case (Cons it its)
  let ?h1 = "h(it := (h it)\<lparr>args := sort_key name
                (args (h it) @ filter (\<lambda>el. el \<in> set (u2 ! bb_id (h it))) (u1 ! bb_id (h it)))\<rparr>)"
  have same: "(\<lambda>p. bb_id (?h1 p) < length u2 \<and> bb_id (?h1 p) < length u1) =
              (\<lambda>p. bb_id (h p) < length u2 \<and> bb_id (h p) < length u1)"
    by (auto simp: fun_eq_iff)
  have IH: "(\<exists>h'. fill_args u1 u2 its ?h1 = Inr h') =
            list_all (\<lambda>it. bb_id (h it) < length u2 \<and> bb_id (h it) < length u1) its"
    using Cons[of ?h1] by (simp only: same)
  show ?case
  proof (cases "bb_id (h it) < length u2 \<and> bb_id (h it) < length u1")
    case True
    then have "fill_args u1 u2 (it # its) h = fill_args u1 u2 its ?h1" by (simp add: at_def)
    then show ?thesis using True IH by simp
  next
    case False
    then have "\<exists>e. fill_args u1 u2 (it # its) h = Inl e" by (auto simp: at_def)
    then show ?thesis using False by auto
  qed
qed

text \<open>
  Claim C1, amended: the scratch arrays of \<open>dealias\<close> and \<open>fillInBlockArguments\<close> have
  \<^verbatim>\<open>cfg.basicBlocks.size()\<close> slots. \<open>dealias\<close> returns without an index out of range exactly
  when the ids of the blocks of \<^verbatim>\<open>backwardsTopoSort\<close> other than the dead block, and of their
  predecessors, are below that number; \<open>fillInBlockArguments\<close> exactly when the ids of the
  blocks left in the read and write sets, of the blocks of both sorted lists, of their
  exits and their back-edges other than the dead block, and of the blocks the graph owns
  are below that number.
\<close>

theorem scratch_indices_in_bounds:
  "((\<exists>cfg'. dealias ctx cfg = Inr cfg') = in_bounds cfg (dealias_indices cfg)) \<and>
   ((\<exists>r. fillInBlockArguments ctx RnW cfg = Inr r) = in_bounds cfg (fill_indices RnW cfg))"
proof -
  let ?h = "heap cfg"
  let ?n = "length (basicBlocks cfg)"
  let ?idf = "\<lambda>bb. bb_id (?h bb)"
  let ?succ = "successor_ids ?h (deadBlock cfg)"
  let ?pred = "predecessor_ids ?h (deadBlock cfg)"
  let ?Q1 = "list_all (\<lambda>bb. bb_id (?h bb) < ?n) (table_blocks RnW)"
  let ?Q2 = "list_all (\<lambda>i. i < ?n) (concat (map (\<lambda>bb. ?idf bb # ?succ bb) (forwardsTopoSort cfg)))"
  let ?Q3 = "list_all (\<lambda>i. i < ?n) (concat (map (\<lambda>bb. ?idf bb # ?pred bb) (backwardsTopoSort cfg)))"
  let ?Q4 = "list_all (\<lambda>it. bb_id (?h it) < ?n) (basicBlocks cfg)"
  have split: "in_bounds cfg (fill_indices RnW cfg) = (?Q1 \<and> ?Q2 \<and> ?Q3 \<and> ?Q4)"
    by (simp add: in_bounds_def fill_indices_def list.pred_map comp_def)
  note Pre = preprocess_ok[of ?h ?n RnW]
  have fill: "(\<exists>r. fillInBlockArguments ctx RnW cfg = Inr r) = (?Q1 \<and> ?Q2 \<and> ?Q3 \<and> ?Q4)"
  proof (cases "preprocess ?h ?n RnW")
    case (Inl e)
    then have "\<not> ?Q1" using Pre by simp
    then show ?thesis using Inl by (simp add: fillInBlockArguments_def Let_def)
  next
    case (Inr q)
    obtain RnW' rbb wbb where q: "q = (RnW', rbb, wbb)" by (cases q)
    have ex: "\<exists>r. preprocess ?h ?n RnW = Inr r" using Inr by (rule exI)
    have q1: ?Q1 by (rule iffD1[OF Pre[THEN conjunct1] ex])
    have lr: "length rbb = ?n" and lw: "length wbb = ?n" using Pre Inr q by simp_all
    note G1 = grow_loop_ok[OF lr, of "replicate ?n []" ?succ ?idf "forwardsTopoSort cfg", simplified]
    note G2 = grow_loop_ok[OF lw, of "replicate ?n []" ?pred ?idf "backwardsTopoSort cfg", simplified]
    show ?thesis
    proof (cases "grow_loop ?succ ?idf rbb (forwardsTopoSort cfg) (replicate ?n [])")
      case (Inl e)
      then have "\<not> ?Q2" using G1 by simp
      then show ?thesis using Inr q Inl by (simp add: fillInBlockArguments_def Let_def)
    next
      case u1: (Inr ub1)
      have ex1: "\<exists>r. grow_loop ?succ ?idf rbb (forwardsTopoSort cfg) (replicate ?n []) = Inr r"
        using u1 by (rule exI)
      have q2: ?Q2 by (rule iffD1[OF G1[THEN conjunct1] ex1])
      have l1: "length ub1 = ?n" using G1 u1 by simp
      show ?thesis
      proof (cases "grow_loop ?pred ?idf wbb (backwardsTopoSort cfg) (replicate ?n [])")
        case (Inl e)
        then have "\<not> ?Q3" using G2 by simp
        then show ?thesis using Inr q u1 Inl by (simp add: fillInBlockArguments_def Let_def)
      next
        case u2: (Inr ub2)
        have ex2: "\<exists>r. grow_loop ?pred ?idf wbb (backwardsTopoSort cfg) (replicate ?n []) = Inr r"
          using u2 by (rule exI)
        have q3: ?Q3 by (rule iffD1[OF G2[THEN conjunct1] ex2])
        have l2: "length ub2 = ?n" using G2 u2 by simp
        have A: "(\<exists>h'. fill_args ub1 ub2 (basicBlocks cfg) ?h = Inr h') = ?Q4"
          using fill_args_ok[of ub1 ub2 "basicBlocks cfg" ?h] l1 l2 by simp
        show ?thesis
        proof (cases "fill_args ub1 ub2 (basicBlocks cfg) ?h")
          case (Inl e)
          then have "\<not> ?Q4" using A by simp
          then show ?thesis using Inr q u1 u2 Inl by (simp add: fillInBlockArguments_def Let_def)
        next
          case a: (Inr h')
          have ex3: "\<exists>h'. fill_args ub1 ub2 (basicBlocks cfg) ?h = Inr h'" using a by blast
          have q4: ?Q4 by (rule iffD1[OF A ex3])
          show ?thesis using Inr q u1 u2 a q1 q2 q3 q4
            by (simp add: fillInBlockArguments_def Let_def)
        qed
      qed
    qed
  qed
  show ?thesis using dealias_ok[of ctx cfg] fill split by simp
qed

text \<open>On the diamond the ids are the numbers below the number of blocks; both passes
  return.\<close>

theorem scratch_indices_in_bounds_witness:
  "in_bounds diamond_cfg (dealias_indices diamond_cfg) \<and>
   in_bounds diamond_cfg (fill_indices diamond_RnW diamond_cfg) \<and>
   (\<exists>cfg'. dealias plain_ctx diamond_cfg = Inr cfg') \<and>
   (\<exists>r. fillInBlockArguments plain_ctx diamond_RnW diamond_cfg = Inr r)"
proof -
  have a: "in_bounds diamond_cfg (dealias_indices diamond_cfg)"
    by (simp add: in_bounds_def dealias_indices_def diamond_cfg_def example_defs)
  have b: "in_bounds diamond_cfg (fill_indices diamond_RnW diamond_cfg)"
    by (simp add: in_bounds_def fill_indices_def table_blocks_def successor_ids_def
        predecessor_ids_def entry_of_def with_key_def set_entry_def Let_def
        diamond_cfg_def diamond_RnW_def var_b_def var_r_def example_defs)
  show ?thesis
    using scratch_indices_in_bounds[of plain_ctx diamond_cfg diamond_RnW] a b
    by (simp only: simp_thms)
qed

text \<open>
  Claim C1, as the spec has it: the arrays have \<^verbatim>\<open>max(id) + 1\<close> slots and no index is out
  of range, also on a graph from which simplify has removed blocks. On \<open>branch_cfg\<close>,
  which passes \<open>sanityCheck\<close>, simplify merges block 2 into the entry block and removes
  it: four blocks are left, with the ids 0, 1, 3 and 4, the graph passes \<open>sanityCheck\<close>
  again, and both passes index slot 4 of an array of four slots.
\<close>

theorem scratch_arrays_too_short:
  "sanityCheck branch_cfg \<and>
   (case simplify 10 True 7 branch_cfg of
      Some (Inr cfg') \<Rightarrow>
        sanityCheck cfg' \<and> basicBlocks cfg' = [0, 1, 3, 4] \<and>
        map (\<lambda>bb. bb_id (heap cfg' bb)) (basicBlocks cfg') = [0, 1, 3, 4] \<and>
        written (topoSortBwd 10 (heap cfg', replicate (length (basicBlocks cfg')) 0, 0)
                   (deadBlock cfg')) = [0, 3, 4, 1] \<and>
        dealias plain_ctx (cfg'\<lparr>backwardsTopoSort := [0, 3, 4, 1]\<rparr>) = Inl OutOfBounds \<and>
        fillInBlockArguments plain_ctx branch_RnW
          (cfg'\<lparr>forwardsTopoSort := [1, 3, 4, 0], backwardsTopoSort := [0, 3, 4, 1]\<rparr>) =
          Inl OutOfBounds
    | _ \<Rightarrow> False)"
  by (simp add: simplify_def eval_nat_numeral branch_cfg_def branch_RnW_def example_defs
      simplify_defs dealias_defs fill_defs written_def mark_def grow_loop.simps)

end
